theory Spec2Isabelle
  imports Main "HOL-Library.Sublist"
begin

section \<open>Python string operations used by \<^verbatim>\<open>scripts/rename_plugin.py\<close>\<close>

text \<open>
  The texts of the script (plugin name, user name, URL, paths, file contents) are modelled
  as lists of characters and are taken to be ASCII text: case conversion acts on the
  letters \<^verbatim>\<open>A\<close>--\<^verbatim>\<open>Z\<close> and \<^verbatim>\<open>a\<close>--\<^verbatim>\<open>z\<close>. What Python does on
  code points outside ASCII is the subject of the code-point model further down, which
  agrees with these functions on ASCII text.
\<close>

definition is_ascii :: "char \<Rightarrow> bool" where
  "is_ascii c = ((of_char c :: nat) < 128)"

definition is_ascii_upper :: "char \<Rightarrow> bool" where
  "is_ascii_upper c = (65 \<le> (of_char c :: nat) \<and> (of_char c :: nat) \<le> 90)"

definition is_ascii_lower :: "char \<Rightarrow> bool" where
  "is_ascii_lower c = (97 \<le> (of_char c :: nat) \<and> (of_char c :: nat) \<le> 122)"

definition lower_char :: "char \<Rightarrow> char" where
  "lower_char c = (if is_ascii_upper c then char_of ((of_char c :: nat) + 32) else c)"

definition upper_char :: "char \<Rightarrow> char" where
  "upper_char c = (if is_ascii_lower c then char_of ((of_char c :: nat) - 32) else c)"

text \<open>\<^verbatim>\<open>str.lower()\<close>.\<close>

definition lower_py :: "string \<Rightarrow> string" where
  "lower_py s = map lower_char s"

text \<open>\<^verbatim>\<open>str.capitalize()\<close>: first character upper-cased, the rest lower-cased.\<close>

fun capitalize_py :: "string \<Rightarrow> string" where
  "capitalize_py [] = []"
| "capitalize_py (c # cs) = upper_char c # map lower_char cs"

text \<open>
  \<^verbatim>\<open>s.replace(old, new)\<close>: every non-overlapping occurrence of \<open>old\<close>, found from
  the left, becomes \<open>new\<close>. With an empty \<open>old\<close> Python puts \<open>new\<close> before every
  character and at the end.
\<close>

fun replace_py :: "'a list \<Rightarrow> 'a list \<Rightarrow> 'a list \<Rightarrow> 'a list" where
  "replace_py [] new s = new @ concat (map (\<lambda>c. c # new) s)"
| "replace_py (a # as) new [] = []"
| "replace_py (a # as) new (c # cs) =
     (if prefix (a # as) (c # cs)
      then new @ replace_py (a # as) new (drop (length as) cs)
      else c # replace_py (a # as) new cs)"

text \<open>
  \<^verbatim>\<open>s.split(sep)\<close> for a separator of one character, as in \<^verbatim>\<open>split('_')\<close>:
  the result is never empty, and adjacent separators give empty segments.
\<close>

fun split_char :: "'a \<Rightarrow> 'a list \<Rightarrow> 'a list list" where
  "split_char sep [] = [[]]"
| "split_char sep (c # cs) =
     (if c = sep then [] # split_char sep cs
      else (case split_char sep cs of
              [] \<Rightarrow> [[c]]
            | w # ws \<Rightarrow> (c # w) # ws))"

text \<open>\<^verbatim>\<open>s.endswith(suffix)\<close>.\<close>

definition endswith_py :: "string \<Rightarrow> string \<Rightarrow> bool" where
  "endswith_py s suf = (length suf \<le> length s \<and> drop (length s - length suf) s = suf)"

text \<open>\<^verbatim>\<open>os.path.basename(p)\<close> on POSIX: what follows the last slash.\<close>

definition basename :: "string \<Rightarrow> string" where
  "basename p = rev (takeWhile (\<lambda>c. c \<noteq> CHR ''/'') (rev p))"

section \<open>Name derivation\<close>

definition to_snake_case :: "string \<Rightarrow> string" where
  "to_snake_case name = lower_py (replace_py ''-'' ''_'' name)"

definition to_camel_case :: "string \<Rightarrow> string" where
  "to_camel_case name =
     concat (map capitalize_py (split_char CHR ''_'' (replace_py ''-'' ''_'' name)))"

subsection \<open>The same derivation on Unicode code points\<close>

text \<open>
  A Python string is a sequence of code points, and \<^verbatim>\<open>str.capitalize()\<close> maps the
  first one by the full title-case mapping of the Unicode database and the others by the
  full lower-case mapping; one code point can become several. The database is not embedded:
  the two tables below give the mapping for ASCII and for the few code points named, and
  nothing (\<open>None\<close>) for every other code point. The entries are U+00C9 to U+00E9
  (lower case), U+00DF to U+0053 U+0073 and U+0149 to U+02BC U+004E (title case).
\<close>

definition lower_full :: "nat \<Rightarrow> nat list option" where
  "lower_full c =
     (if c < 128 then Some [if 65 \<le> c \<and> c \<le> 90 then c + 32 else c]
      else if c = 201 then Some [233]
      else None)"

definition title_full :: "nat \<Rightarrow> nat list option" where
  "title_full c =
     (if c < 128 then Some [if 97 \<le> c \<and> c \<le> 122 then c - 32 else c]
      else if c = 223 then Some [83, 115]
      else if c = 329 then Some [700, 78]
      else None)"

fun capitalize_cp :: "nat list \<Rightarrow> nat list option" where
  "capitalize_cp [] = Some []"
| "capitalize_cp (c # cs) =
     (case title_full c of
        None \<Rightarrow> None
      | Some t \<Rightarrow>
          (case those (map lower_full cs) of
             None \<Rightarrow> None
           | Some ls \<Rightarrow> Some (t @ concat ls)))"

definition to_camel_case_cp :: "nat list \<Rightarrow> nat list option" where
  "to_camel_case_cp name =
     map_option concat
       (those (map capitalize_cp (split_char 95 (replace_py [45] [95] name))))"

definition codepoints :: "string \<Rightarrow> nat list" where
  "codepoints s = map of_char s"

section \<open>The world the script runs in\<close>

text \<open>
  A path names nothing, a directory, or a regular file. A directory can be searched
  (\<open>Dir\<close>) or lacks search permission (\<open>LockedDir\<close>). A regular file is told apart
  by what reading and writing it do: an ordinary text file (\<open>File\<close>), a text file without
  write permission (\<open>ReadOnly\<close>), a file whose bytes are not text in the encoding in use
  (\<open>Undecodable\<close>) and a file without read permission (\<open>Unreadable\<close>); the flag of the
  last two says whether the file can be written. Paths are compared as the strings the
  script builds. The two library calls whose behaviour the script does not determine are
  parameters: \<^verbatim>\<open>shutil.move\<close>, which returns the new file system or raises, and the
  spawned \<^verbatim>\<open>git\<close> process, which exits with a return code or cannot be started.
  Printing is taken to succeed.
\<close>

datatype node =
    File string
  | Dir
  | LockedDir
  | ReadOnly string
  | Undecodable bool
  | Unreadable bool

type_synonym filesystem = "string \<Rightarrow> node option"

text \<open>
  The exceptions of a run. \<open>NameTooLong\<close> is the \<^verbatim>\<open>OSError\<close> that
  \<^verbatim>\<open>stat\<close> raises with \<^verbatim>\<open>ENAMETOOLONG\<close>, \<open>MoveError\<close> stands for whatever
  \<^verbatim>\<open>shutil.move\<close> raises, and \<open>OSError\<close> is the failure to start a process.
  The file errors carry the path they were raised for.
\<close>

datatype exn =
    IsADirectoryError string
  | FileNotFoundError string
  | PermissionError string
  | UnicodeDecodeError string
  | NameTooLong string
  | MoveError string
  | CalledProcessError int
  | OSError

datatype proc_result = Exited int | SpawnFailed

datatype message =
    Renaming string string string string
  | Renamed string string
  | Updated string
  | SetGitRemote string
  | CouldNotSetGitRemote
  | UpdatedLazy
  | Done string

record world =
  fs :: filesystem
  out :: "message list"
  procs :: "string list list"

record env =
  shutil_move :: "filesystem \<Rightarrow> string \<Rightarrow> string \<Rightarrow> exn + filesystem"
  run_process :: "filesystem \<Rightarrow> string list \<Rightarrow> proc_result"

definition fs_of :: "(string \<times> node) list \<Rightarrow> filesystem" where
  "fs_of entries = map_of entries"

text \<open>
  Whether the file system has an entry at a path. This is the plain look-up; what
  \<^verbatim>\<open>Path.exists()\<close> does on the way to the entry is \<open>path_exists\<close> below.
\<close>

definition exists_py :: "filesystem \<Rightarrow> string \<Rightarrow> bool" where
  "exists_py f p = (f p \<noteq> None)"

text \<open>
  \<^verbatim>\<open>Path.exists()\<close> calls \<^verbatim>\<open>stat\<close> and turns "no such file" and "not a
  directory" into \<open>False\<close>; any other error is raised. The lookup goes through the path
  one component at a time: a component that is not the last must be a directory, a
  directory without search permission gives "permission denied", and a component longer
  than 255 bytes met in a directory gives "file name too long" (the limit of Linux file
  systems), as does a path of 4096 bytes or more.
  \<open>stat_walk f pre n rest\<close> has read \<open>pre\<close>, whose last component has \<open>n\<close>
  characters so far, and still has to read \<open>rest\<close>; an error names the whole path, as
  the exception does. This is the behaviour of CPython 3.11 on Linux, for paths of ASCII
  characters, where a character is a byte.
\<close>

fun stat_walk :: "filesystem \<Rightarrow> string \<Rightarrow> nat \<Rightarrow> string \<Rightarrow> exn + bool" where
  "stat_walk f pre n [] =
     (if 255 < n then Inl (NameTooLong pre) else Inr (f pre \<noteq> None))"
| "stat_walk f pre n (c # cs) =
     (if c = CHR ''/'' then
        (if 255 < n then Inl (NameTooLong (pre @ c # cs))
         else if f pre = Some Dir then stat_walk f (pre @ [c]) 0 cs
         else if f pre = Some LockedDir then Inl (PermissionError (pre @ c # cs))
         else Inr False)
      else stat_walk f (pre @ [c]) (Suc n) cs)"

definition path_exists :: "filesystem \<Rightarrow> string \<Rightarrow> exn + bool" where
  "path_exists f p =
     (if 4096 \<le> length p then Inl (NameTooLong p) else stat_walk f [] 0 p)"

text \<open>\<^verbatim>\<open>Path.read_text()\<close>.\<close>

definition read_text :: "filesystem \<Rightarrow> string \<Rightarrow> exn + string" where
  "read_text f p =
     (case f p of
        None \<Rightarrow> Inl (FileNotFoundError p)
      | Some Dir \<Rightarrow> Inl (IsADirectoryError p)
      | Some LockedDir \<Rightarrow> Inl (IsADirectoryError p)
      | Some (File content) \<Rightarrow> Inr content
      | Some (ReadOnly content) \<Rightarrow> Inr content
      | Some (Undecodable writable) \<Rightarrow> Inl (UnicodeDecodeError p)
      | Some (Unreadable writable) \<Rightarrow> Inl (PermissionError p))"

text \<open>
  \<^verbatim>\<open>Path.write_text(content)\<close>. Writing replaces the bytes of the file and leaves
  its permissions; a missing file is created (the script writes only to paths it has just
  read).
\<close>

definition write_text :: "filesystem \<Rightarrow> string \<Rightarrow> string \<Rightarrow> exn + filesystem" where
  "write_text f p content =
     (case f p of
        None \<Rightarrow> Inr (f(p := Some (File content)))
      | Some Dir \<Rightarrow> Inl (IsADirectoryError p)
      | Some LockedDir \<Rightarrow> Inl (IsADirectoryError p)
      | Some (File old) \<Rightarrow> Inr (f(p := Some (File content)))
      | Some (ReadOnly old) \<Rightarrow> Inl (PermissionError p)
      | Some (Undecodable writable) \<Rightarrow>
          if writable then Inr (f(p := Some (File content))) else Inl (PermissionError p)
      | Some (Unreadable writable) \<Rightarrow>
          if writable then Inr f else Inl (PermissionError p))"

definition echo :: "message \<Rightarrow> world \<Rightarrow> world" where
  "echo m w = w\<lparr>out := out w @ [m]\<rparr>"

text \<open>\<^verbatim>\<open>subprocess.run(..., check=True)\<close>: what it raises for each outcome.\<close>

definition check_returncode :: "proc_result \<Rightarrow> exn + unit" where
  "check_returncode r =
     (case r of
        SpawnFailed \<Rightarrow> Inl OSError
      | Exited rc \<Rightarrow> if rc = 0 then Inr () else Inl (CalledProcessError rc))"

section \<open>The steps of \<^verbatim>\<open>main\<close>\<close>

definition replacements :: "string \<Rightarrow> string \<Rightarrow> (string \<times> string) list" where
  "replacements plugin_name username =
     [(''myplugin'', to_snake_case plugin_name),
      (''MyPlugin'', to_camel_case plugin_name),
      (''your-username'', username),
      (''your-plugin-name'', plugin_name),
      (''YourPluginName'', to_camel_case plugin_name)]"

definition files_to_update :: "string \<Rightarrow> string list" where
  "files_to_update plugin_snake =
     [''lua/'' @ plugin_snake @ ''/init.lua'',
      ''lua/'' @ plugin_snake @ ''/config.lua'',
      ''lua/'' @ plugin_snake @ ''/commands.lua'',
      ''lazy.lua'',
      ''README.md'']"

text \<open>Step 1: rename \<^verbatim>\<open>lua/myplugin\<close> when it exists.\<close>

definition rename_directory :: "env \<Rightarrow> string \<Rightarrow> world \<Rightarrow> exn + world" where
  "rename_directory e plugin_snake w =
     (let old_dir = ''lua/myplugin''; new_dir = ''lua/'' @ plugin_snake in
      case path_exists (fs w) old_dir of
        Inl x \<Rightarrow> Inl x
      | Inr found \<Rightarrow>
          if found then
            (case shutil_move e (fs w) old_dir new_dir of
               Inl x \<Rightarrow> Inl x
             | Inr f \<Rightarrow> Inr (echo (Renamed old_dir new_dir) (w\<lparr>fs := f\<rparr>)))
          else Inr w)"

text \<open>The inner loop of step 2: the table's entries applied in order to one text.\<close>

fun apply_replacements :: "(string \<times> string) list \<Rightarrow> string \<Rightarrow> string" where
  "apply_replacements [] content = content"
| "apply_replacements ((old, new) # rest) content =
     apply_replacements rest (replace_py old new content)"

text \<open>Step 2: the loop over the target files.\<close>

fun update_files :: "(string \<times> string) list \<Rightarrow> string list \<Rightarrow> world \<Rightarrow> exn + world" where
  "update_files reps [] w = Inr w"
| "update_files reps (p # ps) w =
     (case path_exists (fs w) p of
        Inl x \<Rightarrow> Inl x
      | Inr found \<Rightarrow>
          if found then
            (case read_text (fs w) p of
               Inl x \<Rightarrow> Inl x
             | Inr content \<Rightarrow>
                 (case write_text (fs w) p (apply_replacements reps content) of
                    Inl x \<Rightarrow> Inl x
                  | Inr f \<Rightarrow> update_files reps ps (echo (Updated p) (w\<lparr>fs := f\<rparr>))))
          else update_files reps ps w)"

text \<open>Step 3: set the remote; every exception of the call is caught.\<close>

definition set_git_remote :: "env \<Rightarrow> string \<Rightarrow> world \<Rightarrow> world" where
  "set_git_remote e git_url w =
     (let argv = [''git'', ''remote'', ''set-url'', ''origin'', git_url];
          w' = w\<lparr>procs := procs w @ [argv]\<rparr>
      in case check_returncode (run_process e (fs w) argv) of
           Inr u \<Rightarrow> echo (SetGitRemote git_url) w'
         | Inl x \<Rightarrow> echo CouldNotSetGitRemote w')"

text \<open>Step 4: the repository reference in \<^verbatim>\<open>lazy.lua\<close>.\<close>

definition update_lazy_spec :: "string \<Rightarrow> world \<Rightarrow> exn + world" where
  "update_lazy_spec git_url w =
     (let repo_name = basename git_url; suffix = ''nvim'' in
      if endswith_py repo_name suffix then
        (let repo_stripped = take (length repo_name - length suffix) repo_name in
         case path_exists (fs w) ''lazy.lua'' of
           Inl x \<Rightarrow> Inl x
         | Inr found \<Rightarrow>
             if found then
               (case read_text (fs w) ''lazy.lua'' of
                  Inl x \<Rightarrow> Inl x
                | Inr lazy_content \<Rightarrow>
                    (case write_text (fs w) ''lazy.lua''
                            (replace_py ''/nvim-plugin-template'' (''/'' @ repo_stripped)
                               lazy_content) of
                       Inl x \<Rightarrow> Inl x
                     | Inr f \<Rightarrow> Inr (echo UpdatedLazy (w\<lparr>fs := f\<rparr>))))
             else Inr w)
      else Inr w)"

text \<open>
  Steps 3 and 4 sit under \<^verbatim>\<open>if git_url:\<close>, which is false for a missing argument
  and for the empty string.
\<close>

fun truthy :: "string option \<Rightarrow> bool" where
  "truthy None = False"
| "truthy (Some s) = (s \<noteq> [])"

definition remote_steps :: "env \<Rightarrow> string option \<Rightarrow> world \<Rightarrow> exn + world" where
  "remote_steps e git_url w =
     (case git_url of
        None \<Rightarrow> Inr w
      | Some url \<Rightarrow>
          if truthy git_url then update_lazy_spec url (set_git_remote e url w) else Inr w)"

definition substitution_step :: "string \<Rightarrow> string \<Rightarrow> world \<Rightarrow> exn + world" where
  "substitution_step plugin_name username w =
     update_files (replacements plugin_name username)
       (files_to_update (to_snake_case plugin_name)) w"

definition main :: "env \<Rightarrow> string \<Rightarrow> string \<Rightarrow> string option \<Rightarrow> world \<Rightarrow> exn + world" where
  "main e plugin_name username git_url w0 =
     (let plugin_snake = to_snake_case plugin_name;
          plugin_camel = to_camel_case plugin_name;
          w1 = echo (Renaming plugin_name plugin_snake plugin_camel username) w0
      in case rename_directory e plugin_snake w1 of
           Inl x \<Rightarrow> Inl x
         | Inr w2 \<Rightarrow>
             (case substitution_step plugin_name username w2 of
                Inl x \<Rightarrow> Inl x
              | Inr w3 \<Rightarrow>
                  (case remote_steps e git_url w3 of
                     Inl x \<Rightarrow> Inl x
                   | Inr w4 \<Rightarrow> Inr (echo (Done plugin_snake) w4))))"

text \<open>An uncaught exception ends the interpreter with status 1.\<close>

definition exit_code :: "exn + world \<Rightarrow> nat" where
  "exit_code r = (case r of Inl x \<Rightarrow> 1 | Inr w \<Rightarrow> 0)"

section \<open>Notions used to state the properties\<close>

text \<open>
  The name forms as the specification words them: the snake form replaces every hyphen by
  an underscore and lower-cases the text; the capitalized form splits at hyphens and
  underscores alike, capitalizes each segment and concatenates them.
\<close>

definition is_separator :: "char \<Rightarrow> bool" where
  "is_separator c = (c = CHR ''-'' \<or> c = CHR ''_'')"

fun split_on :: "(char \<Rightarrow> bool) \<Rightarrow> string \<Rightarrow> string list" where
  "split_on P [] = [[]]"
| "split_on P (c # cs) =
     (if P c then [] # split_on P cs
      else (case split_on P cs of
              [] \<Rightarrow> [[c]]
            | w # ws \<Rightarrow> (c # w) # ws))"

definition hyphen_to_underscore :: "char \<Rightarrow> char" where
  "hyphen_to_underscore c = (if c = CHR ''-'' then CHR ''_'' else c)"

definition snake_form_spec :: "string \<Rightarrow> string" where
  "snake_form_spec s = map lower_char (map hyphen_to_underscore s)"

definition capitalized_form_spec :: "string \<Rightarrow> string" where
  "capitalized_form_spec s = concat (map capitalize_py (split_on is_separator s))"

text \<open>
  \<^verbatim>\<open>s.count(sub)\<close>: the number of non-overlapping occurrences of \<open>sub\<close>,
  counted from the left.
\<close>

fun count_py :: "string \<Rightarrow> string \<Rightarrow> nat" where
  "count_py [] s = Suc (length s)"
| "count_py (a # as) [] = 0"
| "count_py (a # as) (c # cs) =
     (if prefix (a # as) (c # cs)
      then Suc (count_py (a # as) (drop (length as) cs))
      else count_py (a # as) cs)"

text \<open>
  Two texts do not overlap when neither occurs in the other and no non-empty text is at
  once the beginning of one and the end of the other. A text has no border when no
  non-empty text other than itself is both its beginning and its end.
\<close>

definition overlap_free :: "string \<Rightarrow> string \<Rightarrow> bool" where
  "overlap_free x y =
     (\<not> sublist x y \<and> \<not> sublist y x
      \<and> list_all (\<lambda>z. z = [] \<or> \<not> suffix z y) (prefixes x)
      \<and> list_all (\<lambda>z. z = [] \<or> \<not> prefix z y) (suffixes x))"

definition unbordered :: "string \<Rightarrow> bool" where
  "unbordered v = list_all (\<lambda>z. z = [] \<or> z = v \<or> \<not> suffix z v) (prefixes v)"

text \<open>
  A table entry other than the one for the placeholder \<open>k\<close> is independent of \<open>k\<close> and
  its replacement \<open>v\<close> when neither its key nor its replacement overlaps \<open>k\<close> or \<open>v\<close>.
\<close>

definition independent :: "string \<Rightarrow> string \<Rightarrow> string \<times> string \<Rightarrow> bool" where
  "independent k v entry =
     (fst entry = k
      \<or> (overlap_free k (fst entry) \<and> overlap_free k (snd entry)
         \<and> overlap_free v (fst entry) \<and> overlap_free v (snd entry)))"

text \<open>
  A path of ASCII characters within the length limits of the existence test; a path none
  of whose beginnings is a directory without search permission; a path that is absent or
  an ordinary text file; and a target the substitution step can process: reported absent,
  or an ordinary text file.
\<close>

definition path_ok :: "string \<Rightarrow> bool" where
  "path_ok p =
     (list_all is_ascii p \<and> length p < 4096
      \<and> list_all (\<lambda>c. length c \<le> 255) (split_char CHR ''/'' p))"

definition unlocked :: "filesystem \<Rightarrow> string \<Rightarrow> bool" where
  "unlocked f p = list_all (\<lambda>q. f q \<noteq> Some LockedDir) (prefixes p)"

definition plain :: "filesystem \<Rightarrow> string \<Rightarrow> bool" where
  "plain f q = (case f q of None \<Rightarrow> True | Some (File c) \<Rightarrow> True | _ \<Rightarrow> False)"

definition target_ok :: "filesystem \<Rightarrow> string \<Rightarrow> bool" where
  "target_ok f p =
     (case path_exists f p of
        Inl x \<Rightarrow> False
      | Inr found \<Rightarrow>
          if found then (case f p of Some (File c) \<Rightarrow> True | _ \<Rightarrow> False) else True)"

text \<open>
  The arguments of a run are ASCII text: the domain on which the case conversions of the
  model are those of Python and every text can be written in any encoding in use.
\<close>

definition ascii_args :: "string \<Rightarrow> string \<Rightarrow> string option \<Rightarrow> bool" where
  "ascii_args p u g =
     (list_all is_ascii p \<and> list_all is_ascii u
      \<and> list_all is_ascii (case g of None \<Rightarrow> [] | Some url \<Rightarrow> url))"

text \<open>The capital letters \<^verbatim>\<open>A\<close>--\<^verbatim>\<open>Z\<close> among the code points.\<close>

definition is_upper_cp :: "nat \<Rightarrow> bool" where
  "is_upper_cp c = (65 \<le> c \<and> c \<le> 90)"

text \<open>The argument vector of the \<^verbatim>\<open>git\<close> call of step 3.\<close>

definition git_argv :: "string \<Rightarrow> string list" where
  "git_argv url = [''git'', ''remote'', ''set-url'', ''origin'', url]"

text \<open>What a run leaves at a path, or the exception that ended it.\<close>

definition file_after :: "exn + world \<Rightarrow> string \<Rightarrow> exn + node option" where
  "file_after r p = (case r of Inl x \<Rightarrow> Inl x | Inr w \<Rightarrow> Inr (fs w p))"

subsection \<open>Concrete worlds for the examples\<close>

text \<open>
  A world with the given entries and nothing printed or spawned yet; an environment whose
  \<^verbatim>\<open>git\<close> always ends the same way and whose move renames the one entry.
\<close>

definition world_of :: "(string \<times> node) list \<Rightarrow> world" where
  "world_of entries = \<lparr>fs = fs_of entries, out = [], procs = []\<rparr>"

definition move_entry :: "filesystem \<Rightarrow> string \<Rightarrow> string \<Rightarrow> exn + filesystem" where
  "move_entry f src dst = Inr (f(src := None, dst := f src))"

definition env_of :: "proc_result \<Rightarrow> env" where
  "env_of r = \<lparr>shutil_move = move_entry, run_process = (\<lambda>f argv. r)\<rparr>"

definition failing_move_env :: env where
  "failing_move_env =
     \<lparr>shutil_move = (\<lambda>f src dst. Inl (MoveError dst)), run_process = (\<lambda>f argv. Exited 0)\<rparr>"

definition template_world :: world where
  "template_world =
     world_of [(''lazy.lua'', File ''your-username/nvim-plugin-template''),
               (''README.md'', File ''# myplugin'')]"

definition renamed_world :: world where
  "renamed_world =
     \<lparr>fs = (fs_of [(''lazy.lua'', File ''your-username/nvim-plugin-template''),
                    (''README.md'', File ''# myplugin'')])
             (''lazy.lua'' := Some (File ''alice/nvim-plugin-template''),
              ''README.md'' := Some (File ''# my_plugin'')),
      out = [Renaming ''my-plugin'' ''my_plugin'' ''MyPlugin'' ''alice'',
             Updated ''lazy.lua'', Updated ''README.md''],
      procs = []\<rparr>"

section \<open>Name derivation: properties\<close>

lemma of_char_lower_char:
  "(of_char (lower_char c) :: nat) = (if is_ascii_upper c then of_char c + 32 else of_char c)"
  by (simp add: lower_char_def is_ascii_upper_def)

lemma lower_char_idem: "lower_char (lower_char c) = lower_char c"
  by (simp add: lower_char_def is_ascii_upper_def)

lemma lower_char_not_upper: "\<not> is_ascii_upper (lower_char c)"
  by (simp add: lower_char_def is_ascii_upper_def)

lemma lower_char_ne_hyphen: "c \<noteq> CHR ''-'' \<Longrightarrow> lower_char c \<noteq> CHR ''-''"
proof
  assume ne: "c \<noteq> CHR ''-''" and eq: "lower_char c = CHR ''-''"
  from eq have "(of_char (lower_char c) :: nat) = 45" by simp
  then have "\<not> is_ascii_upper c"
    by (auto simp add: of_char_lower_char is_ascii_upper_def split: if_splits)
  with eq ne show False by (simp add: lower_char_def)
qed

lemma replace_py_single:
  "replace_py [a] [b] s = map (\<lambda>c. if c = a then b else c) s"
  by (induction s) auto

lemma replace_hyphen: "replace_py ''-'' ''_'' s = map hyphen_to_underscore s"
  by (simp add: replace_py_single hyphen_to_underscore_def)

lemma to_snake_case_map:
  "to_snake_case s = map (\<lambda>c. lower_char (hyphen_to_underscore c)) s"
  by (simp add: to_snake_case_def lower_py_def replace_hyphen)

lemma snake_char_idem:
  "lower_char (hyphen_to_underscore (lower_char (hyphen_to_underscore c)))
     = lower_char (hyphen_to_underscore c)"
  using lower_char_ne_hyphen [of c] lower_char_ne_hyphen [of "CHR ''_''"]
  by (simp add: hyphen_to_underscore_def lower_char_idem)

lemma split_char_hyphen_to_underscore:
  "split_char CHR ''_'' (map hyphen_to_underscore s) = split_on is_separator s"
  by (induction s) (auto simp add: hyphen_to_underscore_def is_separator_def split: list.splits)

lemma to_camel_case_split_on:
  "to_camel_case s = concat (map capitalize_py (split_on is_separator s))"
  by (simp add: to_camel_case_def replace_hyphen split_char_hyphen_to_underscore)

lemma snake_example: "to_snake_case ''my-plugin'' = ''my_plugin''"
  by code_simp

lemma camel_example: "to_camel_case ''my-plugin'' = ''MyPlugin''"
  by code_simp

lemma camel_example_upper: "to_camel_case ''myABC-plugin'' = ''MyabcPlugin''"
  by code_simp

text \<open>
  Claim C3. For every identifier the snake form is the input with each hyphen replaced by
  an underscore and the whole text lower-cased, and the capitalized form is the
  concatenation of the capitalized segments obtained by splitting at hyphens and
  underscores; \<^verbatim>\<open>my-plugin\<close> gives \<^verbatim>\<open>my_plugin\<close> and
  \<^verbatim>\<open>MyPlugin\<close>.
\<close>

theorem name_derivation_forms:
  "to_snake_case s = snake_form_spec s
   \<and> to_camel_case s = capitalized_form_spec s
   \<and> to_snake_case ''my-plugin'' = ''my_plugin''
   \<and> to_camel_case ''my-plugin'' = ''MyPlugin''"
proof (intro conjI)
  show "to_snake_case s = snake_form_spec s"
    by (simp add: snake_form_spec_def to_snake_case_def lower_py_def replace_hyphen)
  show "to_camel_case s = capitalized_form_spec s"
    by (simp add: to_camel_case_split_on capitalized_form_spec_def)
  show "to_snake_case ''my-plugin'' = ''my_plugin''" by (rule snake_example)
  show "to_camel_case ''my-plugin'' = ''MyPlugin''" by (rule camel_example)
qed

text \<open>
  Claim C10. The snake-form derivation is idempotent: applying it twice gives what
  applying it once gives.
\<close>

theorem to_snake_case_idempotent: "to_snake_case (to_snake_case s) = to_snake_case s"
  by (simp add: to_snake_case_map snake_char_idem)

subsection \<open>The capitalized form on code points\<close>

lemma of_char_upper_char:
  "(of_char (upper_char c) :: nat) = (if is_ascii_lower c then of_char c - 32 else of_char c)"
  by (auto simp add: upper_char_def is_ascii_lower_def)

lemma title_full_ascii: "is_ascii c \<Longrightarrow> title_full (of_char c) = Some [of_char (upper_char c)]"
  by (simp add: title_full_def is_ascii_def of_char_upper_char is_ascii_lower_def)

lemma lower_full_ascii: "is_ascii c \<Longrightarrow> lower_full (of_char c) = Some [of_char (lower_char c)]"
  by (simp add: lower_full_def is_ascii_def of_char_lower_char is_ascii_upper_def)

lemma those_lower_full_ascii:
  "list_all is_ascii cs \<Longrightarrow>
   those (map lower_full (codepoints cs)) = Some (map (\<lambda>c. [of_char (lower_char c)]) cs)"
  by (induction cs) (simp_all add: codepoints_def lower_full_ascii)

lemma concat_singletons: "concat (map (\<lambda>c. [f c]) cs) = map f cs"
  by (induction cs) simp_all

lemma capitalize_cp_ascii:
  "list_all is_ascii w \<Longrightarrow> capitalize_cp (codepoints w) = Some (codepoints (capitalize_py w))"
proof (cases w)
  case Nil
  then show ?thesis by (simp add: codepoints_def)
next
  case (Cons c cs)
  assume "list_all is_ascii w"
  with Cons have c: "is_ascii c" and cs: "list_all is_ascii cs" by simp_all
  from those_lower_full_ascii [OF cs]
  have "those (map lower_full (map of_char cs)) = Some (map (\<lambda>c. [of_char (lower_char c)]) cs)"
    by (simp add: codepoints_def)
  with Cons c show ?thesis
    by (simp add: codepoints_def title_full_ascii concat_singletons)
qed

lemma of_char_eq_hyphen: "((of_char c :: nat) = 45) = (c = CHR ''-'')"
proof -
  have e: "(of_char (CHR ''-'') :: nat) = 45" by simp
  have "((of_char c :: nat) = of_char (CHR ''-'')) = (c = CHR ''-'')"
    by (rule of_char_eq_iff)
  then show ?thesis by (simp only: e)
qed

lemma of_char_eq_underscore: "((of_char c :: nat) = 95) = (c = CHR ''_'')"
proof -
  have e: "(of_char (CHR ''_'') :: nat) = 95" by simp
  have "((of_char c :: nat) = of_char (CHR ''_'')) = (c = CHR ''_'')"
    by (rule of_char_eq_iff)
  then show ?thesis by (simp only: e)
qed

lemma replace_hyphen_codepoints:
  "replace_py [45] [95] (codepoints s) = codepoints (map hyphen_to_underscore s)"
  by (induction s)
     (simp_all add: replace_py_single codepoints_def hyphen_to_underscore_def of_char_eq_hyphen)

lemma split_char_nonempty: "split_char sep s \<noteq> []"
  by (induction s) (simp_all split: list.splits)

lemma split_char_codepoints:
  "split_char 95 (codepoints t) = map codepoints (split_char CHR ''_'' t)"
proof (induction t)
  case Nil
  then show ?case by (simp add: codepoints_def)
next
  case (Cons c t)
  obtain w ws where split: "split_char CHR ''_'' t = w # ws"
    using split_char_nonempty [of "CHR ''_''" t] by (cases "split_char CHR ''_'' t") auto
  with Cons show ?case
    by (simp add: codepoints_def of_char_eq_underscore)
qed

lemma split_char_ascii:
  "list_all is_ascii t \<Longrightarrow> list_all (list_all is_ascii) (split_char sep t)"
proof (induction t)
  case Nil
  then show ?case by simp
next
  case (Cons c t)
  obtain w ws where split: "split_char sep t = w # ws"
    using split_char_nonempty [of sep t] by (cases "split_char sep t") auto
  with Cons show ?case by simp
qed

lemma hyphen_to_underscore_ascii:
  "list_all is_ascii s \<Longrightarrow> list_all is_ascii (map hyphen_to_underscore s)"
  by (induction s) (simp_all add: hyphen_to_underscore_def is_ascii_def)

lemma those_capitalize_cp_ascii:
  "list_all (list_all is_ascii) ws \<Longrightarrow>
   those (map capitalize_cp (map codepoints ws)) = Some (map (\<lambda>w. codepoints (capitalize_py w)) ws)"
  by (induction ws) (simp_all add: capitalize_cp_ascii)

lemma to_camel_case_cp_ascii:
  assumes "list_all is_ascii s"
  shows "to_camel_case_cp (codepoints s) = Some (codepoints (to_camel_case s))"
proof -
  let ?segs = "split_char CHR ''_'' (map hyphen_to_underscore s)"
  from assms have "list_all (list_all is_ascii) ?segs"
    by (intro split_char_ascii hyphen_to_underscore_ascii)
  from those_capitalize_cp_ascii [OF this]
  have "to_camel_case_cp (codepoints s)
          = Some (concat (map (\<lambda>w. codepoints (capitalize_py w)) ?segs))"
    by (simp add: to_camel_case_cp_def replace_hyphen_codepoints split_char_codepoints)
  also have "concat (map (\<lambda>w. codepoints (capitalize_py w)) ?segs)
          = codepoints (concat (map capitalize_py ?segs))"
    by (simp add: codepoints_def map_concat comp_def)
  finally show ?thesis
    by (simp add: to_camel_case_def replace_hyphen)
qed

text \<open>
  Claim C9, amended. For an identifier of ASCII characters the capitalized form is what
  Python computes on code points, it is the concatenation of the capitalized segments
  between hyphens and underscores, and in the capitalized form of a segment every
  character after the first is the lower-cased character of the input, so none is a
  capital letter: \<^verbatim>\<open>myABC-plugin\<close> gives \<^verbatim>\<open>MyabcPlugin\<close>, not
  \<^verbatim>\<open>MyABCPlugin\<close>.
\<close>

theorem capitalized_form_lowers_rest:
  assumes "list_all is_ascii s" and "list_all is_ascii w"
  shows "to_camel_case_cp (codepoints s) = Some (codepoints (to_camel_case s))
   \<and> to_camel_case s = concat (map capitalize_py (split_on is_separator s))
   \<and> capitalize_cp (codepoints w) = Some (codepoints (capitalize_py w))
   \<and> tl (capitalize_py w) = lower_py (tl w)
   \<and> list_all (\<lambda>c. \<not> is_ascii_upper c) (tl (capitalize_py w))
   \<and> to_camel_case ''myABC-plugin'' = ''MyabcPlugin''
   \<and> to_camel_case ''myABC-plugin'' \<noteq> ''MyABCPlugin''"
proof (intro conjI)
  from assms(1) show "to_camel_case_cp (codepoints s) = Some (codepoints (to_camel_case s))"
    by (rule to_camel_case_cp_ascii)
  show "to_camel_case s = concat (map capitalize_py (split_on is_separator s))"
    by (rule to_camel_case_split_on)
  from assms(2) show "capitalize_cp (codepoints w) = Some (codepoints (capitalize_py w))"
    by (rule capitalize_cp_ascii)
  show "tl (capitalize_py w) = lower_py (tl w)"
    by (cases w) (simp_all add: lower_py_def)
  show "list_all (\<lambda>c. \<not> is_ascii_upper c) (tl (capitalize_py w))"
    by (cases w) (simp_all add: list_all_iff lower_char_not_upper)
  show "to_camel_case ''myABC-plugin'' = ''MyabcPlugin''" by (rule camel_example_upper)
  show "to_camel_case ''myABC-plugin'' \<noteq> ''MyABCPlugin''"
    by (simp only: camel_example_upper) simp
qed

lemma ascii_example: "list_all is_ascii ''myABC-plugin''"
  by (simp add: is_ascii_def)

theorem capitalized_form_lowers_rest_witness:
  "to_camel_case_cp (codepoints ''myABC-plugin'') = Some (codepoints ''MyabcPlugin'')
   \<and> capitalize_cp (codepoints ''myABC-plugin'') = Some (codepoints (capitalize_py ''myABC-plugin''))
   \<and> tl (capitalize_py ''myABC-plugin'') = lower_py (tl ''myABC-plugin'')"
  using capitalized_form_lowers_rest [OF ascii_example ascii_example]
  by (simp add: camel_example_upper)

text \<open>
  Claim C9 as stated fails outside ASCII. For the identifier of the two code points
  U+0149 and \<^verbatim>\<open>a\<close>, the title-case mapping of the first one has two code points,
  U+02BC and \<^verbatim>\<open>N\<close>: the capitalized form is U+02BC, \<^verbatim>\<open>N\<close>, \<^verbatim>\<open>a\<close>, whose
  second character is a capital letter.
\<close>

theorem capitalized_form_counterexample:
  "to_camel_case_cp [329, 97] = Some [700, 78, 97]
   \<and> [700, 78, 97] ! 1 = (78 :: nat)
   \<and> is_upper_cp 78"
  by (simp add: to_camel_case_cp_def title_full_def lower_full_def is_upper_cp_def)

section \<open>File system and steps: auxiliary facts\<close>

lemma fs_echo [simp]: "fs (echo m w) = fs w"
  by (simp add: echo_def)

lemma procs_echo [simp]: "procs (echo m w) = procs w"
  by (simp add: echo_def)

lemma fs_set_git_remote [simp]: "fs (set_git_remote e url w) = fs w"
  by (simp add: set_git_remote_def Let_def echo_def split: sum.splits)

lemma exists_py_fs_of_simps [simp]:
  "exists_py (fs_of []) p = False"
  "exists_py (fs_of ((q, n) # es)) p = (p = q \<or> exists_py (fs_of es) p)"
  by (auto simp add: exists_py_def fs_of_def)

lemma fs_world_of [simp]: "fs (world_of es) = fs_of es"
  by (simp add: world_of_def)

subsection \<open>The existence test\<close>

lemma path_exists_lazy: "path_exists f ''lazy.lua'' = Inr (exists_py f ''lazy.lua'')"
  by (simp add: path_exists_def exists_py_def)

lemma path_exists_readme: "path_exists f ''README.md'' = Inr (exists_py f ''README.md'')"
  by (simp add: path_exists_def exists_py_def)

lemma path_exists_source:
  "path_exists f ''lua/myplugin''
     = (if f ''lua'' = Some Dir then Inr (exists_py f ''lua/myplugin'')
        else if f ''lua'' = Some LockedDir then Inl (PermissionError ''lua/myplugin'')
        else Inr False)"
  by (simp add: path_exists_def exists_py_def)

lemma stat_walk_cong:
  assumes "\<And>q. (f' q = Some Dir) = (f q = Some Dir)"
    and "\<And>q. (f' q = Some LockedDir) = (f q = Some LockedDir)"
    and "\<And>q. (f' q = None) = (f q = None)"
  shows "stat_walk f' pre n rest = stat_walk f pre n rest"
  by (induction rest arbitrary: pre n) (simp_all add: assms)

lemma path_exists_cong:
  assumes "\<And>q. (f' q = Some Dir) = (f q = Some Dir)"
    and "\<And>q. (f' q = Some LockedDir) = (f q = Some LockedDir)"
    and "\<And>q. (f' q = None) = (f q = None)"
  shows "path_exists f' p = path_exists f p"
  using stat_walk_cong [of f' f, OF assms] by (simp add: path_exists_def)

lemma stat_walk_found:
  "stat_walk f pre n rest = Inr True \<Longrightarrow> f (pre @ rest) \<noteq> None"
proof (induction rest arbitrary: pre n)
  case Nil
  then show ?case by (simp split: if_splits)
next
  case (Cons c rest)
  from Cons.prems obtain m where "stat_walk f (pre @ [c]) m rest = Inr True"
    by (auto split: if_splits)
  from Cons.IH [OF this] show ?case by simp
qed

lemma path_exists_found: "path_exists f p = Inr True \<Longrightarrow> f p \<noteq> None"
  using stat_walk_found [of f "[]" 0 p] by (simp add: path_exists_def split: if_splits)

lemma stat_walk_within_limits:
  "n + length (hd (split_char CHR ''/'' rest)) \<le> 255 \<Longrightarrow>
   list_all (\<lambda>c. length c \<le> 255) (tl (split_char CHR ''/'' rest)) \<Longrightarrow>
   (\<And>q. prefix q (pre @ rest) \<Longrightarrow> f q \<noteq> Some LockedDir) \<Longrightarrow>
   \<exists>b. stat_walk f pre n rest = Inr b"
proof (induction rest arbitrary: pre n)
  case Nil
  then show ?case by simp
next
  case (Cons c rest)
  have open_here: "f pre \<noteq> Some LockedDir"
    by (rule Cons.prems(3)) simp
  have open_later: "\<And>q. prefix q ((pre @ [c]) @ rest) \<Longrightarrow> f q \<noteq> Some LockedDir"
    using Cons.prems(3) by simp
  obtain w ws where split: "split_char CHR ''/'' rest = w # ws"
    using split_char_nonempty [of "CHR ''/''" rest] by (cases "split_char CHR ''/'' rest") auto
  show ?case
  proof (cases "c = CHR ''/''")
    case True
    with Cons.prems split have n: "n \<le> 255" and w: "0 + length (hd (split_char CHR ''/'' rest)) \<le> 255"
      and ws: "list_all (\<lambda>c. length c \<le> 255) (tl (split_char CHR ''/'' rest))"
      by simp_all
    from Cons.IH [OF w ws open_later] obtain b where "stat_walk f (pre @ [c]) 0 rest = Inr b"
      by blast
    with True n open_here show ?thesis by auto
  next
    case False
    with Cons.prems split have w: "Suc n + length (hd (split_char CHR ''/'' rest)) \<le> 255"
      and ws: "list_all (\<lambda>c. length c \<le> 255) (tl (split_char CHR ''/'' rest))"
      by simp_all
    from Cons.IH [OF w ws open_later] obtain b
      where "stat_walk f (pre @ [c]) (Suc n) rest = Inr b" by blast
    with False show ?thesis by simp
  qed
qed

lemma path_exists_within_limits:
  assumes "path_ok p" and "unlocked f p"
  shows "\<exists>b. path_exists f p = Inr b"
proof -
  from assms(2) have open_all: "\<And>q. prefix q ([] @ p) \<Longrightarrow> f q \<noteq> Some LockedDir"
    by (simp add: unlocked_def list_all_iff)
  obtain w ws where split: "split_char CHR ''/'' p = w # ws"
    using split_char_nonempty [of "CHR ''/''" p] by (cases "split_char CHR ''/'' p") auto
  with assms(1) have "0 + length (hd (split_char CHR ''/'' p)) \<le> 255"
    and "list_all (\<lambda>c. length c \<le> 255) (tl (split_char CHR ''/'' p))"
    by (simp_all add: path_ok_def)
  from stat_walk_within_limits [where f = f and pre = "[]", OF this open_all]
  obtain b where "stat_walk f [] 0 p = Inr b" by blast
  with assms(1) show ?thesis by (simp add: path_exists_def path_ok_def)
qed

lemma path_exists_absent:
  assumes "path_ok p" and "unlocked f p" and "\<not> exists_py f p"
  shows "path_exists f p = Inr False"
proof -
  from path_exists_within_limits [OF assms(1,2)] obtain b where b: "path_exists f p = Inr b" ..
  with path_exists_found [of f p] assms(3) show ?thesis
    by (cases b) (simp_all add: exists_py_def)
qed

subsection \<open>Reading and writing\<close>

lemma read_text_file: "f p = Some (File c) \<Longrightarrow> read_text f p = Inr c"
  by (simp add: read_text_def)

lemma write_text_file: "f p = Some (File c) \<Longrightarrow> write_text f p c' = Inr (f(p := Some (File c')))"
  by (simp add: write_text_def)

lemma read_then_write:
  assumes "read_text f p = Inr c" and "write_text f p c' = Inr f'"
  shows "f p = Some (File c) \<and> f' = f(p := Some (File c'))"
  using assms
  by (cases "f p") (auto simp add: read_text_def write_text_def split: node.splits if_splits)

subsection \<open>The rename step and the loop over the target files\<close>

lemma rename_directory_procs:
  "rename_directory e s w = Inr w' \<Longrightarrow> procs w' = procs w"
  by (auto simp add: rename_directory_def echo_def Let_def split: if_splits sum.splits)

lemma rename_directory_absent:
  "\<not> exists_py (fs w) ''lua/myplugin'' \<Longrightarrow> fs w ''lua'' \<noteq> Some LockedDir \<Longrightarrow>
   rename_directory e s w = Inr w"
  by (simp add: rename_directory_def path_exists_source Let_def)

text \<open>
  One round of the loop that finds its target: the target is an ordinary text file, it is
  rewritten, and the loop goes on in a file system with the same directories and the same
  entries.
\<close>

lemma update_files_found:
  assumes "update_files reps (a # ps) w = Inr w'" and "path_exists (fs w) a = Inr True"
  obtains c where "fs w a = Some (File c)"
    and "update_files reps ps
           (echo (Updated a) (w\<lparr>fs := (fs w)(a := Some (File (apply_replacements reps c)))\<rparr>))
         = Inr w'"
proof -
  from assms obtain c f' where rd: "read_text (fs w) a = Inr c"
    and wr: "write_text (fs w) a (apply_replacements reps c) = Inr f'"
    and rest: "update_files reps ps (echo (Updated a) (w\<lparr>fs := f'\<rparr>)) = Inr w'"
    by (auto split: sum.splits)
  from read_then_write [OF rd wr] rest that show ?thesis by simp
qed

lemma update_files_not_found:
  "path_exists (fs w) a = Inr False \<Longrightarrow> update_files reps (a # ps) w = update_files reps ps w"
  by simp

lemma update_files_head_cases:
  assumes "update_files reps (a # ps) w = Inr w'"
  obtains "path_exists (fs w) a = Inr False" | "path_exists (fs w) a = Inr True"
  using assms by (cases "path_exists (fs w) a") (auto split: if_splits)

lemma path_exists_after_write:
  "f a = Some (File c) \<Longrightarrow> path_exists (f(a := Some (File c'))) q = path_exists f q"
  by (rule path_exists_cong) auto

lemma update_files_procs:
  "update_files reps ps w = Inr w' \<Longrightarrow> procs w' = procs w"
proof (induction ps arbitrary: w)
  case Nil
  then show ?case by simp
next
  case (Cons a ps)
  from Cons.prems show ?case
  proof (cases rule: update_files_head_cases)
    case 1
    with Cons show ?thesis by simp
  next
    case 2
    from update_files_found [OF Cons.prems 2] obtain c where
      "update_files reps ps
         (echo (Updated a) (w\<lparr>fs := (fs w)(a := Some (File (apply_replacements reps c)))\<rparr>))
       = Inr w'" by blast
    from Cons.IH [OF this] show ?thesis by simp
  qed
qed

text \<open>A path that is absent or an ordinary text file stays so through the loop.\<close>

lemma plain_iff: "plain f q = (f q = None \<or> (\<exists>c. f q = Some (File c)))"
  by (simp add: plain_def split: option.splits node.splits)

lemma update_files_plain:
  "update_files reps ps w = Inr w' \<Longrightarrow> plain (fs w) q \<Longrightarrow> plain (fs w') q"
proof (induction ps arbitrary: w)
  case Nil
  then show ?case by simp
next
  case (Cons a ps)
  from Cons.prems(1) show ?case
  proof (cases rule: update_files_head_cases)
    case 1
    with Cons show ?thesis by simp
  next
    case 2
    from update_files_found [OF Cons.prems(1) 2] obtain c where c: "fs w a = Some (File c)" and
      rest: "update_files reps ps
         (echo (Updated a) (w\<lparr>fs := (fs w)(a := Some (File (apply_replacements reps c)))\<rparr>))
       = Inr w'" by blast
    from Cons.prems(2) have
      "plain (fs (echo (Updated a)
         (w\<lparr>fs := (fs w)(a := Some (File (apply_replacements reps c)))\<rparr>))) q"
      by (simp add: plain_iff)
    from Cons.IH [OF rest this] show ?thesis .
  qed
qed

lemma update_files_lazy_plain:
  assumes "update_files reps ps w = Inr w'" and "''lazy.lua'' \<in> set ps"
  shows "plain (fs w') ''lazy.lua''"
  using assms
proof (induction ps arbitrary: w)
  case Nil
  then show ?case by simp
next
  case (Cons a ps)
  show ?case
  proof (cases "a = ''lazy.lua''")
    case True
    from Cons.prems(1) show ?thesis
    proof (cases rule: update_files_head_cases)
      case 1
      with True have "plain (fs w) ''lazy.lua''"
        by (simp add: path_exists_lazy exists_py_def plain_iff)
      moreover from 1 Cons.prems(1) have "update_files reps ps w = Inr w'" by simp
      ultimately show ?thesis by (rule update_files_plain [rotated])
    next
      case 2
      from update_files_found [OF Cons.prems(1) 2] obtain c where
        rest: "update_files reps ps
           (echo (Updated a) (w\<lparr>fs := (fs w)(a := Some (File (apply_replacements reps c)))\<rparr>))
         = Inr w'" by blast
      from True have
        "plain (fs (echo (Updated a)
           (w\<lparr>fs := (fs w)(a := Some (File (apply_replacements reps c)))\<rparr>))) ''lazy.lua''"
        by (simp add: plain_iff)
      with rest show ?thesis by (rule update_files_plain)
    qed
  next
    case False
    with Cons.prems(2) have mem: "''lazy.lua'' \<in> set ps" by simp
    from Cons.prems(1) show ?thesis
    proof (cases rule: update_files_head_cases)
      case 1
      with Cons.prems(1) have "update_files reps ps w = Inr w'" by simp
      from Cons.IH [OF this mem] show ?thesis .
    next
      case 2
      from update_files_found [OF Cons.prems(1) 2] obtain c where
        rest: "update_files reps ps
           (echo (Updated a) (w\<lparr>fs := (fs w)(a := Some (File (apply_replacements reps c)))\<rparr>))
         = Inr w'" by blast
      from Cons.IH [OF rest mem] show ?thesis .
    qed
  qed
qed

lemma target_ok_after_write:
  assumes "f a = Some (File c)" and "target_ok f q"
  shows "target_ok (f(a := Some (File c'))) q"
  using assms by (auto simp add: target_ok_def path_exists_after_write split: sum.splits if_splits)

lemma update_files_total:
  "list_all (target_ok (fs w)) ps \<Longrightarrow> \<exists>w'. update_files reps ps w = Inr w'"
proof (induction ps arbitrary: w)
  case Nil
  then show ?case by simp
next
  case (Cons a ps)
  from Cons.prems have a: "target_ok (fs w) a" and ps: "list_all (target_ok (fs w)) ps"
    by simp_all
  from a obtain found where found: "path_exists (fs w) a = Inr found"
    by (auto simp add: target_ok_def split: sum.splits)
  show ?case
  proof (cases found)
    case False
    with found Cons.IH [OF ps] show ?thesis by simp
  next
    case True
    with a found obtain c where c: "fs w a = Some (File c)"
      by (auto simp add: target_ok_def split: option.splits node.splits)
    let ?w = "echo (Updated a) (w\<lparr>fs := (fs w)(a := Some (File (apply_replacements reps c)))\<rparr>)"
    from ps have "list_all (target_ok (fs ?w)) ps"
      by (simp add: list_all_iff target_ok_after_write [where f = "fs w", OF c])
    from Cons.IH [OF this] obtain w' where "update_files reps ps ?w = Inr w'" ..
    with True found c show ?thesis
      by (simp add: read_text_file write_text_file)
  qed
qed

lemma update_files_other:
  "update_files reps ps w = Inr w' \<Longrightarrow> q \<notin> set ps \<Longrightarrow> fs w' q = fs w q"
proof (induction ps arbitrary: w)
  case Nil
  then show ?case by simp
next
  case (Cons a ps)
  from Cons.prems have qa: "q \<noteq> a" and qps: "q \<notin> set ps" by simp_all
  from Cons.prems(1) show ?case
  proof (cases rule: update_files_head_cases)
    case 1
    with Cons.prems(1) have "update_files reps ps w = Inr w'" by simp
    from Cons.IH [OF this qps] show ?thesis .
  next
    case 2
    from update_files_found [OF Cons.prems(1) 2] obtain c where
      rest: "update_files reps ps
         (echo (Updated a) (w\<lparr>fs := (fs w)(a := Some (File (apply_replacements reps c)))\<rparr>))
       = Inr w'" by blast
    from Cons.IH [OF rest qps] qa show ?thesis by simp
  qed
qed

lemma update_files_content:
  "update_files reps ps w = Inr w' \<Longrightarrow> distinct ps \<Longrightarrow> p \<in> set ps \<Longrightarrow>
   path_exists (fs w) p = Inr True \<Longrightarrow> fs w p = Some (File c) \<Longrightarrow>
   fs w' p = Some (File (apply_replacements reps c))"
proof (induction ps arbitrary: w)
  case Nil
  then show ?case by simp
next
  case (Cons a ps)
  from Cons.prems have d: "distinct ps" and a: "a \<notin> set ps" by simp_all
  show ?case
  proof (cases "p = a")
    case True
    with Cons.prems(4) have found: "path_exists (fs w) a = Inr True" by simp
    from update_files_found [OF Cons.prems(1) found] obtain c' where c': "fs w a = Some (File c')"
      and rest: "update_files reps ps
         (echo (Updated a) (w\<lparr>fs := (fs w)(a := Some (File (apply_replacements reps c')))\<rparr>))
       = Inr w'" by blast
    from c' True Cons.prems(5) have "c' = c" by simp
    with update_files_other [OF rest a] True show ?thesis by simp
  next
    case False
    with Cons.prems have pin: "p \<in> set ps" by simp
    from Cons.prems(1) show ?thesis
    proof (cases rule: update_files_head_cases)
      case 1
      with Cons.prems(1) have "update_files reps ps w = Inr w'" by simp
      from Cons.IH [OF this d pin Cons.prems(4,5)] show ?thesis .
    next
      case 2
      from update_files_found [OF Cons.prems(1) 2] obtain c' where c': "fs w a = Some (File c')"
        and rest: "update_files reps ps
           (echo (Updated a) (w\<lparr>fs := (fs w)(a := Some (File (apply_replacements reps c')))\<rparr>))
         = Inr w'" by blast
      let ?w = "echo (Updated a)
        (w\<lparr>fs := (fs w)(a := Some (File (apply_replacements reps c')))\<rparr>)"
      from Cons.prems(4) have pe: "path_exists (fs ?w) p = Inr True"
        by (simp add: path_exists_after_write [where f = "fs w", OF c'])
      from False Cons.prems(5) have "fs ?w p = Some (File c)" by simp
      from Cons.IH [OF rest d pin pe this] show ?thesis .
    qed
  qed
qed

lemma distinct_files_to_update: "distinct (files_to_update s)"
  by (simp add: files_to_update_def)

lemma lazy_in_files: "''lazy.lua'' \<in> set (files_to_update s)"
  by (simp add: files_to_update_def)

lemma update_lazy_spec_total:
  "plain (fs w) ''lazy.lua'' \<Longrightarrow> \<exists>w'. update_lazy_spec url w = Inr w'"
  by (auto simp add: update_lazy_spec_def Let_def path_exists_lazy exists_py_def plain_iff
      read_text_def write_text_def)

lemma update_lazy_spec_noop:
  "\<not> endswith_py (basename url) ''nvim'' \<or> \<not> exists_py (fs w) ''lazy.lua'' \<Longrightarrow>
   update_lazy_spec url w = Inr w"
  by (auto simp add: update_lazy_spec_def Let_def path_exists_lazy)

lemma remote_steps_total:
  assumes "plain (fs w) ''lazy.lua''"
  shows "\<exists>w'. remote_steps e g w = Inr w'"
proof (cases g)
  case None
  then show ?thesis by (simp add: remote_steps_def)
next
  case (Some url)
  from assms have "plain (fs (set_git_remote e url w)) ''lazy.lua''" by simp
  from update_lazy_spec_total [OF this] Some show ?thesis
    by (auto simp add: remote_steps_def)
qed

lemma length_to_snake_case [simp]: "length (to_snake_case s) = length s"
  by (simp add: to_snake_case_map)

lemma to_snake_case_replicate_a:
  "to_snake_case (replicate n (CHR ''a'')) = replicate n (CHR ''a'')"
  by (simp add: to_snake_case_map hyphen_to_underscore_def lower_char_def is_ascii_upper_def)

lemma stat_walk_long_component:
  "list_all (\<lambda>c. c \<noteq> CHR ''/'') cs \<Longrightarrow> 255 < n + length cs \<Longrightarrow>
   stat_walk f pre n (cs @ CHR ''/'' # rest) = Inl (NameTooLong (pre @ cs @ CHR ''/'' # rest))"
  by (induction cs arbitrary: pre n) simp_all

section \<open>Properties of the run\<close>

text \<open>
  Claim C6, amended. The claim holds when the existence test can reach its answer: the
  path has no component over 255 bytes and fewer than 4096 bytes in all, and no directory
  on the way to it lacks search permission. When \<^verbatim>\<open>lua/myplugin\<close> is absent and
  no directory on the way to it lacks search permission, the rename step returns the world
  as it is, printing nothing and raising nothing, and \<^verbatim>\<open>main\<close> goes on with the
  content substitution. In the loop over the target files, an absent file whose path is
  within these limits is skipped and the remaining files are processed.
\<close>

theorem absent_source_and_targets_skipped:
  "(\<not> exists_py (fs w0) ''lua/myplugin'' \<and> unlocked (fs w0) ''lua/myplugin'' \<longrightarrow>
      rename_directory e s w0 = Inr w0
      \<and> main e p u g w0 =
          (case substitution_step p u
                  (echo (Renaming p (to_snake_case p) (to_camel_case p) u) w0) of
             Inl x \<Rightarrow> Inl x
           | Inr w3 \<Rightarrow>
               (case remote_steps e g w3 of
                  Inl x \<Rightarrow> Inl x
                | Inr w4 \<Rightarrow> Inr (echo (Done (to_snake_case p)) w4))))
   \<and> (\<not> exists_py (fs w) a \<and> path_ok a \<and> unlocked (fs w) a \<longrightarrow>
        update_files reps (a # ps) w = update_files reps ps w)"
proof (intro conjI impI)
  assume "\<not> exists_py (fs w0) ''lua/myplugin'' \<and> unlocked (fs w0) ''lua/myplugin''"
  then have absent: "\<not> exists_py (fs w0) ''lua/myplugin''"
    and searchable: "fs w0 ''lua'' \<noteq> Some LockedDir"
    by (simp_all add: unlocked_def list_all_iff)
  then show "rename_directory e s w0 = Inr w0" by (rule rename_directory_absent)
  from absent searchable have "\<not> exists_py
      (fs (echo (Renaming p (to_snake_case p) (to_camel_case p) u) w0)) ''lua/myplugin''"
    and "fs (echo (Renaming p (to_snake_case p) (to_camel_case p) u) w0) ''lua''
      \<noteq> Some LockedDir"
    by simp_all
  from rename_directory_absent [OF this]
  show "main e p u g w0 =
          (case substitution_step p u
                  (echo (Renaming p (to_snake_case p) (to_camel_case p) u) w0) of
             Inl x \<Rightarrow> Inl x
           | Inr w3 \<Rightarrow>
               (case remote_steps e g w3 of
                  Inl x \<Rightarrow> Inl x
                | Inr w4 \<Rightarrow> Inr (echo (Done (to_snake_case p)) w4)))"
    by (simp add: main_def Let_def)
next
  assume "\<not> exists_py (fs w) a \<and> path_ok a \<and> unlocked (fs w) a"
  then have "path_exists (fs w) a = Inr False" by (simp add: path_exists_absent)
  then show "update_files reps (a # ps) w = update_files reps ps w"
    by (rule update_files_not_found)
qed

lemma path_ok_lazy: "path_ok ''lazy.lua''"
  by (simp add: path_ok_def is_ascii_def)

lemma unlocked_readme_only:
  "unlocked (fs (world_of [(''README.md'', File c)])) ''lua/myplugin''"
  "unlocked (fs (world_of [(''README.md'', File c)])) ''lazy.lua''"
  by (simp_all add: unlocked_def fs_of_def)

theorem absent_source_and_targets_skipped_witness:
  "\<not> exists_py (fs (world_of [(''README.md'', File ''# myplugin'')])) ''lua/myplugin''
   \<and> unlocked (fs (world_of [(''README.md'', File ''# myplugin'')])) ''lua/myplugin''
   \<and> rename_directory (env_of SpawnFailed) ''x''
        (world_of [(''README.md'', File ''# myplugin'')])
       = Inr (world_of [(''README.md'', File ''# myplugin'')])
   \<and> \<not> exists_py (fs (world_of [(''README.md'', File ''# myplugin'')])) ''lazy.lua''
   \<and> path_ok ''lazy.lua''
   \<and> unlocked (fs (world_of [(''README.md'', File ''# myplugin'')])) ''lazy.lua''
   \<and> update_files [(''myplugin'', ''x'')] [''lazy.lua'', ''README.md'']
        (world_of [(''README.md'', File ''# myplugin'')])
       = update_files [(''myplugin'', ''x'')] [''README.md'']
        (world_of [(''README.md'', File ''# myplugin'')])"
  using absent_source_and_targets_skipped
    [of "world_of [(''README.md'', File ''# myplugin'')]" "env_of SpawnFailed" "''x''"
        "''x''" "''alice''" None "world_of [(''README.md'', File ''# myplugin'')]"
        "''lazy.lua''" "[(''myplugin'', ''x'')]" "[''README.md'']"]
    path_ok_lazy unlocked_readme_only [of "''# myplugin''"]
  by simp

text \<open>
  Claim C6 as stated fails for a plugin name of 300 characters when the directory
  \<^verbatim>\<open>lua\<close> exists: the first target is absent, yet the existence test raises
  "file name too long" instead of reporting absence, so the file is not skipped and the
  run ends with exit code 1.
\<close>

theorem long_name_target_counterexample:
  "\<not> exists_py (fs (world_of [(''lua'', Dir)]))
        (''lua/'' @ replicate 300 (CHR ''a'') @ ''/init.lua'')
   \<and> update_files [] [''lua/'' @ replicate 300 (CHR ''a'') @ ''/init.lua'', ''README.md'']
        (world_of [(''lua'', Dir)])
       = Inl (NameTooLong (''lua/'' @ replicate 300 (CHR ''a'') @ ''/init.lua''))
   \<and> update_files [] [''README.md''] (world_of [(''lua'', Dir)])
       = Inr (world_of [(''lua'', Dir)])
   \<and> exit_code (main (env_of (Exited 0)) (replicate 300 (CHR ''a'')) ''alice'' None
        (world_of [(''lua'', Dir)])) = 1"
proof -
  have walk: "stat_walk (fs_of [(''lua'', Dir)]) ''lua/'' 0
      (replicate 300 (CHR ''a'') @ CHR ''/'' # rest)
      = Inl (NameTooLong (''lua/'' @ replicate 300 (CHR ''a'') @ CHR ''/'' # rest))" for rest
    by (rule stat_walk_long_component) (simp_all add: list_all_iff)
  have target: "path_exists (fs_of [(''lua'', Dir)])
      (''lua/'' @ replicate 300 (CHR ''a'') @ CHR ''/'' # rest)
      = Inl (NameTooLong (''lua/'' @ replicate 300 (CHR ''a'') @ CHR ''/'' # rest))"
    if "length rest < 100" for rest
    using that walk [of rest] by (simp add: path_exists_def fs_of_def)
  have absent: "\<not> exists_py (fs (world_of [(''lua'', Dir)]))
        (''lua/'' @ replicate 300 (CHR ''a'') @ ''/init.lua'')"
    by simp
  have first: "update_files [] [''lua/'' @ replicate 300 (CHR ''a'') @ ''/init.lua'', ''README.md'']
        (world_of [(''lua'', Dir)])
       = Inl (NameTooLong (''lua/'' @ replicate 300 (CHR ''a'') @ ''/init.lua''))"
    using target [of "''init.lua''"] by simp
  have second: "update_files [] [''README.md''] (world_of [(''lua'', Dir)])
       = Inr (world_of [(''lua'', Dir)])"
    by (simp add: path_exists_readme)
  have "substitution_step (replicate 300 (CHR ''a'')) ''alice'' w = Inl
      (NameTooLong (''lua/'' @ replicate 300 (CHR ''a'') @ ''/init.lua''))"
    if "fs w = fs_of [(''lua'', Dir)]" for w
    using that target [of "''init.lua''"]
    by (simp add: substitution_step_def files_to_update_def to_snake_case_replicate_a)
  then have "exit_code (main (env_of (Exited 0)) (replicate 300 (CHR ''a'')) ''alice'' None
        (world_of [(''lua'', Dir)])) = 1"
    by (simp add: main_def Let_def rename_directory_def path_exists_source exit_code_def
        fs_of_def exists_py_def)
  with absent first second show ?thesis by simp
qed

lemma basename_example_vim: "basename ''https://github.com/alice/foo.vim'' = ''foo.vim''"
  by (simp add: basename_def)

text \<open>
  Claim C8. With a repository URL supplied, the patch of the repository reference is a
  silent no-op whenever the URL's last path segment does not end with the suffix
  \<^verbatim>\<open>nvim\<close> or \<^verbatim>\<open>lazy.lua\<close> does not exist: steps 3 and 4 together
  leave the world that step 3 alone produces, and the file system is unchanged.
\<close>

theorem lazy_patch_noop:
  assumes "url \<noteq> []"
    and "\<not> endswith_py (basename url) ''nvim'' \<or> \<not> exists_py (fs w) ''lazy.lua''"
  shows "update_lazy_spec url w = Inr w
   \<and> remote_steps e (Some url) w = Inr (set_git_remote e url w)
   \<and> fs (set_git_remote e url w) = fs w"
proof (intro conjI)
  from assms(2) show "update_lazy_spec url w = Inr w" by (rule update_lazy_spec_noop)
  from assms(2) have "\<not> endswith_py (basename url) ''nvim''
      \<or> \<not> exists_py (fs (set_git_remote e url w)) ''lazy.lua''" by simp
  then have "update_lazy_spec url (set_git_remote e url w) = Inr (set_git_remote e url w)"
    by (rule update_lazy_spec_noop)
  with assms(1) show "remote_steps e (Some url) w = Inr (set_git_remote e url w)"
    by (simp add: remote_steps_def)
  show "fs (set_git_remote e url w) = fs w" by simp
qed

theorem lazy_patch_noop_witness:
  "''https://github.com/alice/foo.vim'' \<noteq> []
   \<and> \<not> endswith_py (basename ''https://github.com/alice/foo.vim'') ''nvim''
   \<and> update_lazy_spec ''https://github.com/alice/foo.vim''
        (world_of [(''lazy.lua'', File ''alice/nvim-plugin-template'')])
       = Inr (world_of [(''lazy.lua'', File ''alice/nvim-plugin-template'')])
   \<and> fs (set_git_remote (env_of (Exited 0)) ''https://github.com/alice/foo.vim''
        (world_of [(''lazy.lua'', File ''alice/nvim-plugin-template'')])) ''lazy.lua''
       = Some (File ''alice/nvim-plugin-template'')"
proof -
  have h1: "''https://github.com/alice/foo.vim'' \<noteq> []" by simp
  have h2: "\<not> endswith_py (basename ''https://github.com/alice/foo.vim'') ''nvim''"
    by (simp add: basename_example_vim endswith_py_def)
  then have h3: "\<not> endswith_py (basename ''https://github.com/alice/foo.vim'') ''nvim''
    \<or> \<not> exists_py (fs (world_of [(''lazy.lua'', File ''alice/nvim-plugin-template'')])) ''lazy.lua''"
    by simp
  from lazy_patch_noop [OF h1 h3, of "env_of (Exited 0)"] h1 h2 show ?thesis
    by (simp add: fs_of_def)
qed

text \<open>
  Claim C7. Without a repository URL the remote update and the patch of the repository
  reference are both skipped without error: a run whose first two steps succeed ends
  successfully in the world the substitution step left, with the completion message
  added; no process has been spawned and \<^verbatim>\<open>lazy.lua\<close> is as step 2 left it.
\<close>

theorem no_url_skips_remote_steps:
  assumes "rename_directory e (to_snake_case p)
             (echo (Renaming p (to_snake_case p) (to_camel_case p) u) w0) = Inr w2"
    and "substitution_step p u w2 = Inr w3"
  shows "remote_steps e None w3 = Inr w3
   \<and> main e p u None w0 = Inr (echo (Done (to_snake_case p)) w3)
   \<and> procs (echo (Done (to_snake_case p)) w3) = procs w0
   \<and> fs (echo (Done (to_snake_case p)) w3) = fs w3"
proof (intro conjI)
  show r: "remote_steps e None w3 = Inr w3" by (simp add: remote_steps_def)
  from assms r show "main e p u None w0 = Inr (echo (Done (to_snake_case p)) w3)"
    by (simp add: main_def Let_def)
  from assms(2) have "procs w3 = procs w2"
    unfolding substitution_step_def by (rule update_files_procs)
  with rename_directory_procs [OF assms(1)]
  show "procs (echo (Done (to_snake_case p)) w3) = procs w0" by simp
  show "fs (echo (Done (to_snake_case p)) w3) = fs w3" by simp
qed

text \<open>
  Claim C5. With a repository URL supplied, a failing \<^verbatim>\<open>git\<close> call (a non-zero
  return code, or a process that cannot be started) is caught and reported by the warning
  message; the run is not aborted: step 4 runs on the resulting world and returns, and
  \<^verbatim>\<open>main\<close> ends successfully with the completion message.
\<close>

theorem git_failure_is_caught:
  assumes "url \<noteq> []"
    and "rename_directory e (to_snake_case p)
             (echo (Renaming p (to_snake_case p) (to_camel_case p) u) w0) = Inr w2"
    and "substitution_step p u w2 = Inr w3"
    and "run_process e (fs w3) (git_argv url) \<noteq> Exited 0"
  shows "set_git_remote e url w3
           = echo CouldNotSetGitRemote (w3\<lparr>procs := procs w3 @ [git_argv url]\<rparr>)
   \<and> (\<exists>w4. update_lazy_spec url (set_git_remote e url w3) = Inr w4
          \<and> main e p u (Some url) w0 = Inr (echo (Done (to_snake_case p)) w4))"
proof (intro conjI)
  from assms(4) obtain x where "check_returncode (run_process e (fs w3) (git_argv url)) = Inl x"
    by (cases "run_process e (fs w3) (git_argv url)") (auto simp add: check_returncode_def)
  then show "set_git_remote e url w3
           = echo CouldNotSetGitRemote (w3\<lparr>procs := procs w3 @ [git_argv url]\<rparr>)"
    by (simp add: set_git_remote_def git_argv_def Let_def)
  from assms(3) have "plain (fs w3) ''lazy.lua''"
    unfolding substitution_step_def
    by (rule update_files_lazy_plain) (rule lazy_in_files)
  then have "plain (fs (set_git_remote e url w3)) ''lazy.lua''" by simp
  from update_lazy_spec_total [OF this] obtain w4
    where w4: "update_lazy_spec url (set_git_remote e url w3) = Inr w4" ..
  with assms(1-3) have "main e p u (Some url) w0 = Inr (echo (Done (to_snake_case p)) w4)"
    by (simp add: main_def Let_def remote_steps_def)
  with w4 show "\<exists>w4. update_lazy_spec url (set_git_remote e url w3) = Inr w4
          \<and> main e p u (Some url) w0 = Inr (echo (Done (to_snake_case p)) w4)" by blast
qed

text \<open>
  Claim C4, amended. For arguments of ASCII text, the exit code is 0 exactly when the
  rename step and the content-substitution step raise nothing: the outcome of the
  \<^verbatim>\<open>git\<close> call never changes it, and after those two steps the patch of
  \<^verbatim>\<open>lazy.lua\<close> cannot raise. In particular the exit code is 0 when the rename step
  raises nothing and every target is then reported absent or is an ordinary text file,
  and it is 1 when \<^verbatim>\<open>lua/myplugin\<close> exists and \<^verbatim>\<open>shutil.move\<close> raises.
\<close>

theorem exit_code_zero_iff_steps_succeed:
  assumes "ascii_args p u g"
  shows "(exit_code (main e p u g w0) = 0 \<longleftrightarrow>
      (\<exists>w2 w3. rename_directory e (to_snake_case p)
                  (echo (Renaming p (to_snake_case p) (to_camel_case p) u) w0) = Inr w2
               \<and> substitution_step p u w2 = Inr w3))
   \<and> (rename_directory e (to_snake_case p)
         (echo (Renaming p (to_snake_case p) (to_camel_case p) u) w0) = Inr w2 \<longrightarrow>
       list_all (target_ok (fs w2)) (files_to_update (to_snake_case p)) \<longrightarrow>
       exit_code (main e p u g w0) = 0)
   \<and> (path_exists (fs w0) ''lua/myplugin'' = Inr True \<longrightarrow>
       shutil_move e (fs w0) ''lua/myplugin'' (''lua/'' @ to_snake_case p) = Inl x \<longrightarrow>
       exit_code (main e p u g w0) = 1)"
proof -
  let ?w1 = "echo (Renaming p (to_snake_case p) (to_camel_case p) u) w0"
  have steps: "exit_code (main e p u g w0) = 0"
    if r: "rename_directory e (to_snake_case p) ?w1 = Inr w2"
      and s: "substitution_step p u w2 = Inr w3" for w2 w3
  proof -
    from s have "plain (fs w3) ''lazy.lua''"
      unfolding substitution_step_def
      by (rule update_files_lazy_plain) (rule lazy_in_files)
    from remote_steps_total [OF this] obtain w4 where "remote_steps e g w3 = Inr w4" ..
    with r s show ?thesis by (simp add: main_def Let_def exit_code_def)
  qed
  have iff: "exit_code (main e p u g w0) = 0 \<longleftrightarrow>
      (\<exists>w2 w3. rename_directory e (to_snake_case p) ?w1 = Inr w2
               \<and> substitution_step p u w2 = Inr w3)"
  proof
    assume "exit_code (main e p u g w0) = 0"
    then show "\<exists>w2 w3. rename_directory e (to_snake_case p) ?w1 = Inr w2
               \<and> substitution_step p u w2 = Inr w3"
      by (auto simp add: main_def Let_def exit_code_def split: sum.splits)
  next
    assume "\<exists>w2 w3. rename_directory e (to_snake_case p) ?w1 = Inr w2
               \<and> substitution_step p u w2 = Inr w3"
    with steps show "exit_code (main e p u g w0) = 0" by blast
  qed
  have ok: "exit_code (main e p u g w0) = 0"
    if r: "rename_directory e (to_snake_case p) ?w1 = Inr w2"
      and t: "list_all (target_ok (fs w2)) (files_to_update (to_snake_case p))"
  proof -
    from update_files_total [OF t] obtain w3 where "substitution_step p u w2 = Inr w3"
      unfolding substitution_step_def by blast
    with r show ?thesis by (rule steps)
  qed
  have move: "exit_code (main e p u g w0) = 1"
    if "path_exists (fs w0) ''lua/myplugin'' = Inr True"
      and "shutil_move e (fs w0) ''lua/myplugin'' (''lua/'' @ to_snake_case p) = Inl x"
    using that by (simp add: main_def Let_def rename_directory_def exit_code_def)
  from iff ok move show ?thesis by blast
qed

lemma template_rename:
  "rename_directory e (to_snake_case ''my-plugin'')
     (echo (Renaming ''my-plugin'' (to_snake_case ''my-plugin'') (to_camel_case ''my-plugin'')
        ''alice'') template_world)
   = Inr (echo (Renaming ''my-plugin'' ''my_plugin'' ''MyPlugin'' ''alice'') template_world)"
  by (simp add: snake_example camel_example rename_directory_def path_exists_source
      template_world_def fs_of_def)

lemma template_substitution:
  "substitution_step ''my-plugin'' ''alice''
     (echo (Renaming ''my-plugin'' ''my_plugin'' ''MyPlugin'' ''alice'') template_world)
   = Inr renamed_world"
  by (simp add: substitution_step_def replacements_def files_to_update_def snake_example
      camel_example template_world_def renamed_world_def world_of_def echo_def
      path_exists_def read_text_def write_text_def fs_of_def)

theorem no_url_skips_remote_steps_witness:
  "main (env_of (Exited 0)) ''my-plugin'' ''alice'' None template_world
     = Inr (echo (Done ''my_plugin'') renamed_world)
   \<and> procs (echo (Done ''my_plugin'') renamed_world) = procs template_world
   \<and> fs (echo (Done ''my_plugin'') renamed_world) ''lazy.lua''
       = Some (File ''alice/nvim-plugin-template'')"
  using no_url_skips_remote_steps [OF template_rename template_substitution, of "env_of (Exited 0)"]
  by (simp add: snake_example renamed_world_def template_world_def world_of_def)

lemma template_git_fails:
  "run_process (env_of (Exited 128)) (fs renamed_world)
     (git_argv ''https://github.com/alice/foo.vim'') \<noteq> Exited 0"
  by (simp add: env_of_def)

theorem git_failure_is_caught_witness:
  "set_git_remote (env_of (Exited 128)) ''https://github.com/alice/foo.vim'' renamed_world
     = echo CouldNotSetGitRemote
         (renamed_world\<lparr>procs := procs renamed_world
            @ [git_argv ''https://github.com/alice/foo.vim'']\<rparr>)
   \<and> exit_code (main (env_of (Exited 128)) ''my-plugin'' ''alice''
         (Some ''https://github.com/alice/foo.vim'') template_world) = 0"
proof -
  have h: "''https://github.com/alice/foo.vim'' \<noteq> []" by simp
  from git_failure_is_caught [OF h template_rename template_substitution template_git_fails]
  show ?thesis by (auto simp add: exit_code_def)
qed

lemma template_targets:
  "list_all (target_ok (fs (echo (Renaming ''my-plugin'' ''my_plugin'' ''MyPlugin'' ''alice'')
      template_world))) (files_to_update (to_snake_case ''my-plugin''))"
  by (simp add: files_to_update_def snake_example template_world_def fs_of_def target_ok_def
      path_exists_def)

lemma source_present:
  "path_exists (fs (world_of [(''lua'', Dir), (''lua/myplugin'', Dir)])) ''lua/myplugin''
     = Inr True"
  by (simp add: path_exists_source fs_of_def exists_py_def)

lemma template_args:
  "ascii_args ''my-plugin'' ''alice'' (Some ''https://github.com/alice/foo.nvim'')"
  "ascii_args ''my-plugin'' ''alice'' None"
  by (simp_all add: ascii_args_def is_ascii_def)

lemma source_move_fails:
  "shutil_move failing_move_env (fs (world_of [(''lua'', Dir), (''lua/myplugin'', Dir)]))
     ''lua/myplugin'' (''lua/'' @ to_snake_case ''my-plugin'') = Inl (MoveError ''lua/my_plugin'')"
  by (simp add: failing_move_env_def snake_example)

theorem exit_code_zero_iff_steps_succeed_witness:
  "exit_code (main (env_of SpawnFailed) ''my-plugin'' ''alice''
      (Some ''https://github.com/alice/foo.nvim'') template_world) = 0
   \<and> exit_code (main failing_move_env ''my-plugin'' ''alice'' None
      (world_of [(''lua'', Dir), (''lua/myplugin'', Dir)])) = 1"
  using exit_code_zero_iff_steps_succeed
      [OF template_args(1), of "env_of SpawnFailed" template_world
          "echo (Renaming ''my-plugin'' ''my_plugin'' ''MyPlugin'' ''alice'') template_world"]
    exit_code_zero_iff_steps_succeed
      [OF template_args(2), of failing_move_env
          "world_of [(''lua'', Dir), (''lua/myplugin'', Dir)]" _
          "MoveError ''lua/my_plugin''"]
    template_rename template_targets source_present source_move_fails
  by simp

text \<open>
  Claim C4 as stated fails: when \<^verbatim>\<open>README.md\<close> is a file whose bytes are not text
  in the encoding in use, reading it raises an exception that nothing catches, and the run
  ends with exit code 1.
\<close>

theorem exit_code_nonzero_counterexample:
  "exit_code (main (env_of (Exited 0)) ''my-plugin'' ''alice'' None
      (world_of [(''README.md'', Undecodable True)])) = 1"
  by (simp add: main_def Let_def rename_directory_def path_exists_source substitution_step_def
      files_to_update_def snake_example path_exists_def read_text_def fs_of_def exists_py_def
      exit_code_def)

text \<open>
  Claim C1. For the URL \<^verbatim>\<open>https://github.com/alice/foo.nvim\<close> the claim expects
  \<^verbatim>\<open>/foo\<close> in place of \<^verbatim>\<open>/nvim-plugin-template\<close>. The script strips the
  four characters \<^verbatim>\<open>nvim\<close> from \<^verbatim>\<open>foo.nvim\<close>, although its comment says
  that it removes \<^verbatim>\<open>.nvim\<close>, so the dot stays: the file ends with
  \<^verbatim>\<open>alice/foo.\<close>, not \<^verbatim>\<open>alice/foo\<close>.
\<close>

theorem lazy_repo_reference_keeps_dot:
  "file_after (main e ''foo'' ''alice'' (Some ''https://github.com/alice/foo.nvim'')
      (world_of [(''lazy.lua'', File ''your-username/nvim-plugin-template'')])) ''lazy.lua''
   = Inr (Some (File ''alice/foo.''))
   \<and> file_after (main e ''foo'' ''alice'' (Some ''https://github.com/alice/foo.nvim'')
      (world_of [(''lazy.lua'', File ''your-username/nvim-plugin-template'')])) ''lazy.lua''
   \<noteq> Inr (Some (File ''alice/foo''))"
  by (simp add: main_def Let_def rename_directory_def path_exists_source substitution_step_def
      files_to_update_def replacements_def remote_steps_def update_lazy_spec_def
      basename_def endswith_py_def path_exists_def
      read_text_def write_text_def fs_of_def exists_py_def file_after_def)

section \<open>Content substitution: occurrences of the placeholders\<close>

subsection \<open>One step of a replacement or of a count\<close>

lemma replace_py_match:
  "old \<noteq> [] \<Longrightarrow> prefix old s \<Longrightarrow>
   replace_py old new s = new @ replace_py old new (drop (length old) s)"
  by (cases old; cases s) (simp_all del: Cons_prefix_Cons)

lemma replace_py_skip:
  "old \<noteq> [] \<Longrightarrow> \<not> prefix old (c # cs) \<Longrightarrow>
   replace_py old new (c # cs) = c # replace_py old new cs"
  by (cases old) (simp_all del: Cons_prefix_Cons)

lemma replace_py_empty: "old \<noteq> [] \<Longrightarrow> replace_py old new [] = []"
  by (cases old) simp_all

lemma count_py_match:
  "x \<noteq> [] \<Longrightarrow> prefix x s \<Longrightarrow> count_py x s = Suc (count_py x (drop (length x) s))"
  by (cases x; cases s) (simp_all del: Cons_prefix_Cons)

lemma count_py_skip:
  "x \<noteq> [] \<Longrightarrow> \<not> prefix x (c # cs) \<Longrightarrow> count_py x (c # cs) = count_py x cs"
  by (cases x) (simp_all del: Cons_prefix_Cons)

lemma count_py_empty: "x \<noteq> [] \<Longrightarrow> count_py x [] = 0"
  by (cases x) simp_all

lemma count_py_self_append: "x \<noteq> [] \<Longrightarrow> count_py x (x @ s) = Suc (count_py x s)"
  by (simp add: count_py_match)

lemma count_py_zero_iff: "x \<noteq> [] \<Longrightarrow> count_py x s = 0 \<longleftrightarrow> \<not> sublist x s"
proof (induction s)
  case Nil
  then show ?case by (simp add: count_py_empty)
next
  case (Cons c cs)
  show ?case
  proof (cases "prefix x (c # cs)")
    case True
    then have "sublist x (c # cs)" by (rule prefix_imp_sublist)
    with count_py_match [OF Cons.prems True] show ?thesis by simp
  next
    case False
    with Cons count_py_skip [OF Cons.prems False] show ?thesis
      by (simp add: sublist_Cons_right)
  qed
qed

lemma drop_prefix_shorter:
  assumes "x \<noteq> []" and "prefix x s"
  shows "length (drop (length x) s) < length s"
proof -
  from assms(2) have "length x \<le> length s" by (rule prefix_length_le)
  moreover from assms(1) have "0 < length x" by simp
  ultimately have "length s - length x < length s" by arith
  then show ?thesis by simp
qed

subsection \<open>Texts that do not overlap\<close>

lemma overlap_free_not_sublist: "overlap_free x y \<Longrightarrow> \<not> sublist x y"
  by (simp add: overlap_free_def)

lemma overlap_free_not_sublist': "overlap_free x y \<Longrightarrow> \<not> sublist y x"
  by (simp add: overlap_free_def)

lemma overlap_free_prefix_suffix:
  "overlap_free x y \<Longrightarrow> z \<noteq> [] \<Longrightarrow> prefix z x \<Longrightarrow> suffix z y \<Longrightarrow> False"
  by (auto simp add: overlap_free_def list_all_iff)

lemma overlap_free_suffix_prefix:
  "overlap_free x y \<Longrightarrow> z \<noteq> [] \<Longrightarrow> suffix z x \<Longrightarrow> prefix z y \<Longrightarrow> False"
  by (auto simp add: overlap_free_def list_all_iff)

lemma overlap_free_sym: "overlap_free x y \<Longrightarrow> overlap_free y x"
  by (auto simp add: overlap_free_def list_all_iff)

lemma overlap_free_nonempty: "overlap_free x y \<Longrightarrow> x \<noteq> [] \<and> y \<noteq> []"
  by (auto simp add: overlap_free_def)

lemma unbordered_no_border:
  "unbordered v \<Longrightarrow> z \<noteq> [] \<Longrightarrow> z \<noteq> v \<Longrightarrow> prefix z v \<Longrightarrow> suffix z v \<Longrightarrow> False"
  by (auto simp add: unbordered_def list_all_iff)

text \<open>Inside a block \<open>b\<close> that does not overlap \<open>x\<close>, no occurrence of \<open>x\<close> begins.\<close>

lemma no_occurrence_in_block:
  assumes "overlap_free x b" and "z \<noteq> []" and "suffix z b"
  shows "\<not> prefix x (z @ t)"
proof
  assume "prefix x (z @ t)"
  then consider "prefix x z" | us where "x = z @ us"
    by (auto simp add: prefix_append)
  then show False
  proof cases
    case 1
    with assms(3) have "sublist x b" by (auto simp add: sublist_altdef')
    with assms(1) show False by (simp add: overlap_free_not_sublist)
  next
    case 2
    then have "prefix z x" by simp
    from overlap_free_prefix_suffix [OF assms(1,2) this assms(3)] show False .
  qed
qed

lemma count_py_through_block:
  assumes "overlap_free x b"
  shows "count_py x (b @ t) = count_py x t"
proof -
  from assms have x: "x \<noteq> []" by (simp add: overlap_free_nonempty)
  have "suffix z b \<Longrightarrow> count_py x (z @ t) = count_py x t" for z
  proof (induction z)
    case Nil
    then show ?case by simp
  next
    case (Cons c z)
    from Cons.prems have "suffix z b" by (rule suffix_ConsD)
    from Cons.IH [OF this] have ih: "count_py x (z @ t) = count_py x t" .
    from no_occurrence_in_block [OF assms _ Cons.prems, of t]
    have "\<not> prefix x (c # (z @ t))" by simp
    from count_py_skip [OF x this] ih show ?case by simp
  qed
  from this [of b] show ?thesis by simp
qed

lemma replace_py_through_block:
  assumes "overlap_free old b"
  shows "replace_py old new (b @ t) = b @ replace_py old new t"
proof -
  from assms have old: "old \<noteq> []" by (simp add: overlap_free_nonempty)
  have "suffix z b \<Longrightarrow> replace_py old new (z @ t) = z @ replace_py old new t" for z
  proof (induction z)
    case Nil
    then show ?case by simp
  next
    case (Cons c z)
    from Cons.prems have "suffix z b" by (rule suffix_ConsD)
    from Cons.IH [OF this] have ih: "replace_py old new (z @ t) = z @ replace_py old new t" .
    from no_occurrence_in_block [OF assms _ Cons.prems, of t]
    have "\<not> prefix old (c # (z @ t))" by simp
    from replace_py_skip [OF old this] ih show ?case by simp
  qed
  from this [of b] show ?thesis by simp
qed

subsection \<open>What begins the result of a replacement\<close>

lemma prefix_replace_py_cases:
  "old \<noteq> [] \<Longrightarrow> prefix p (replace_py old new t) \<Longrightarrow>
   prefix p t \<or> (\<exists>p1 p2. p = p1 @ p2 \<and> p2 \<noteq> [] \<and> prefix p1 t
                    \<and> (prefix p2 new \<or> prefix new p2))"
proof (induction t arbitrary: p rule: length_induct)
  case (1 t)
  show ?case
  proof (cases p)
    case Nil
    then show ?thesis by simp
  next
    case (Cons x p')
    show ?thesis
    proof (cases "prefix old t")
      case True
      from replace_py_match [OF "1.prems"(1) True] "1.prems"(2)
      have "prefix p (new @ replace_py old new (drop (length old) t))" by simp
      then have "prefix p new \<or> prefix new p"
        by (auto simp add: prefix_append)
      with Cons have "p = [] @ p \<and> p \<noteq> [] \<and> prefix [] t \<and> (prefix p new \<or> prefix new p)"
        by simp
      then show ?thesis by blast
    next
      case False
      show ?thesis
      proof (cases t)
        case Nil
        with "1.prems" Cons show ?thesis by (simp add: replace_py_empty)
      next
        case t: (Cons c cs)
        from False t have "\<not> prefix old (c # cs)" by simp
        from replace_py_skip [OF "1.prems"(1) this] "1.prems"(2) t Cons
        have x: "x = c" and p': "prefix p' (replace_py old new cs)" by simp_all
        from t have "length cs < length t" by simp
        with "1.IH" "1.prems"(1) p' have
          "prefix p' cs \<or> (\<exists>p1 p2. p' = p1 @ p2 \<and> p2 \<noteq> [] \<and> prefix p1 cs
                    \<and> (prefix p2 new \<or> prefix new p2))" by blast
        then show ?thesis
        proof
          assume "prefix p' cs"
          with x Cons t show ?thesis by simp
        next
          assume "\<exists>p1 p2. p' = p1 @ p2 \<and> p2 \<noteq> [] \<and> prefix p1 cs
                    \<and> (prefix p2 new \<or> prefix new p2)"
          then obtain p1 p2 where "p' = p1 @ p2" "p2 \<noteq> []" "prefix p1 cs"
            "prefix p2 new \<or> prefix new p2" by blast
          with x Cons t have "p = (c # p1) @ p2 \<and> p2 \<noteq> [] \<and> prefix (c # p1) t
              \<and> (prefix p2 new \<or> prefix new p2)" by simp
          then show ?thesis by blast
        qed
      qed
    qed
  qed
qed

lemma overlap_free_split:
  assumes "overlap_free x new" and "x = p1 @ p2" and "p2 \<noteq> []"
    and "prefix p2 new \<or> prefix new p2"
  shows False
  using assms(4)
proof
  assume "prefix p2 new"
  moreover from assms(2) have "suffix p2 x" by (simp add: suffix_def)
  ultimately show False using overlap_free_suffix_prefix [OF assms(1,3)] by blast
next
  assume "prefix new p2"
  then obtain r where "p2 = new @ r" by (auto simp add: prefix_def)
  with assms(2) have "sublist new x" by (auto simp add: sublist_def)
  with assms(1) show False by (simp add: overlap_free_not_sublist')
qed

lemma prefix_replace_py:
  assumes "old \<noteq> []" and "overlap_free x new" and "prefix x (replace_py old new t)"
  shows "prefix x t"
  using prefix_replace_py_cases [OF assms(1,3)] overlap_free_split [OF assms(2)] by blast

subsection \<open>A replacement neither brings in nor takes away what it does not overlap\<close>

lemma sublist_block_append:
  assumes "overlap_free x new" and "sublist x (new @ r)"
  shows "sublist x r"
proof -
  from assms(1) have x: "x \<noteq> []" by (simp add: overlap_free_nonempty)
  from assms(2) consider "sublist x new" | "sublist x r"
    | x1 x2 where "x = x1 @ x2" "suffix x1 new" "prefix x2 r"
    by (auto simp add: sublist_append)
  then show ?thesis
  proof cases
    case 1
    with assms(1) show ?thesis by (simp add: overlap_free_not_sublist)
  next
    case 2
    then show ?thesis .
  next
    case 3
    show ?thesis
    proof (cases "x1 = []")
      case True
      with 3 show ?thesis by (simp add: prefix_imp_sublist)
    next
      case False
      from 3(1) have "prefix x1 x" by simp
      from overlap_free_prefix_suffix [OF assms(1) False this 3(2)] show ?thesis ..
    qed
  qed
qed

lemma sublist_replace_py:
  "old \<noteq> [] \<Longrightarrow> overlap_free x new \<Longrightarrow> sublist x (replace_py old new s) \<Longrightarrow> sublist x s"
proof (induction s rule: length_induct)
  case (1 s)
  show ?case
  proof (cases "prefix old s")
    case True
    let ?rest = "drop (length old) s"
    from "1.prems"(1) True have shorter: "length ?rest < length s"
      by (rule drop_prefix_shorter)
    from replace_py_match [OF "1.prems"(1) True] "1.prems"(3)
    have "sublist x (new @ replace_py old new ?rest)" by simp
    from sublist_block_append [OF "1.prems"(2) this]
    have "sublist x (replace_py old new ?rest)" .
    with "1.IH" shorter "1.prems"(1,2) have "sublist x ?rest" by blast
    also have "sublist ?rest s" by simp
    finally show ?thesis .
  next
    case False
    show ?thesis
    proof (cases s)
      case Nil
      with "1.prems" show ?thesis by (simp add: replace_py_empty)
    next
      case (Cons c cs)
      with False have np: "\<not> prefix old (c # cs)" by simp
      from replace_py_skip [OF "1.prems"(1) np] "1.prems"(3) Cons
      have "sublist x (c # replace_py old new cs)" by simp
      then consider "prefix x (c # replace_py old new cs)" | "sublist x (replace_py old new cs)"
        by (auto simp add: sublist_Cons_right)
      then show ?thesis
      proof cases
        case 1
        with replace_py_skip [OF "1.prems"(1) np, of new]
        have "prefix x (replace_py old new (c # cs))" by simp
        from prefix_replace_py [OF "1.prems"(1,2) this] Cons show ?thesis
          by (simp add: prefix_imp_sublist)
      next
        case 2
        from Cons have "length cs < length s" by simp
        with "1.IH" "1.prems"(1,2) 2 have "sublist x cs" by blast
        with Cons show ?thesis by (simp add: sublist_Cons_right)
      qed
    qed
  qed
qed

lemma old_absent_after_replace_py:
  "overlap_free old new \<Longrightarrow> \<not> sublist old (replace_py old new s)"
proof (induction s rule: length_induct)
  case (1 s)
  from "1.prems" have old: "old \<noteq> []" by (simp add: overlap_free_nonempty)
  show ?case
  proof (cases "prefix old s")
    case True
    let ?rest = "drop (length old) s"
    from old True have shorter: "length ?rest < length s"
      by (rule drop_prefix_shorter)
    with "1.IH" "1.prems" have ih: "\<not> sublist old (replace_py old new ?rest)" by blast
    show ?thesis
    proof
      assume "sublist old (replace_py old new s)"
      with replace_py_match [OF old True]
      have "sublist old (new @ replace_py old new ?rest)" by simp
      from sublist_block_append [OF "1.prems" this] ih show False by simp
    qed
  next
    case False
    show ?thesis
    proof (cases s)
      case Nil
      with old show ?thesis by (simp add: replace_py_empty)
    next
      case (Cons c cs)
      with False have np: "\<not> prefix old (c # cs)" by simp
      from Cons have "length cs < length s" by simp
      with "1.IH" "1.prems" have ih: "\<not> sublist old (replace_py old new cs)" by blast
      show ?thesis
      proof
        assume "sublist old (replace_py old new s)"
        with replace_py_skip [OF old np] Cons
        have "sublist old (c # replace_py old new cs)" by simp
        with ih have "prefix old (c # replace_py old new cs)"
          by (simp add: sublist_Cons_right)
        with replace_py_skip [OF old np, of new]
        have "prefix old (replace_py old new (c # cs))" by simp
        from prefix_replace_py [OF old "1.prems" this] np show False by simp
      qed
    qed
  qed
qed

lemma count_py_replace_py_other:
  assumes "overlap_free x old" and "overlap_free x new"
  shows "count_py x (replace_py old new s) = count_py x s"
proof (induction s rule: length_induct)
  case (1 s)
  from assms have x: "x \<noteq> []" and old: "old \<noteq> []" by (simp_all add: overlap_free_nonempty)
  show ?case
  proof (cases "prefix old s")
    case True
    let ?rest = "drop (length old) s"
    from True have s: "s = old @ ?rest" by (auto simp add: prefix_def)
    from old True have "length ?rest < length s" by (rule drop_prefix_shorter)
    with "1.IH" have ih: "count_py x (replace_py old new ?rest) = count_py x ?rest" by blast
    from s count_py_through_block [OF assms(1), of ?rest]
    have "count_py x s = count_py x ?rest" by simp
    moreover from replace_py_match [OF old True]
      count_py_through_block [OF assms(2), of "replace_py old new ?rest"]
    have "count_py x (replace_py old new s) = count_py x (replace_py old new ?rest)" by simp
    ultimately show ?thesis using ih by simp
  next
    case False
    show ?thesis
    proof (cases "prefix x s")
      case True
      let ?rest = "drop (length x) s"
      from True have s: "s = x @ ?rest" by (auto simp add: prefix_def)
      from x True have "length ?rest < length s" by (rule drop_prefix_shorter)
      with "1.IH" have ih: "count_py x (replace_py old new ?rest) = count_py x ?rest" by blast
      from s replace_py_through_block [OF overlap_free_sym [OF assms(1)], of new ?rest]
      have "replace_py old new s = x @ replace_py old new ?rest" by simp
      then have "count_py x (replace_py old new s) = Suc (count_py x (replace_py old new ?rest))"
        by (simp add: count_py_self_append [OF x])
      moreover from count_py_match [OF x True]
      have "count_py x s = Suc (count_py x ?rest)" .
      ultimately show ?thesis using ih by simp
    next
      case nx: False
      show ?thesis
      proof (cases s)
        case Nil
        with old show ?thesis by (simp add: replace_py_empty)
      next
        case (Cons c cs)
        with False nx have np: "\<not> prefix old (c # cs)" and nq: "\<not> prefix x (c # cs)"
          by simp_all
        from Cons have "length cs < length s" by simp
        with "1.IH" have ih: "count_py x (replace_py old new cs) = count_py x cs" by blast
        have "\<not> prefix x (replace_py old new (c # cs))"
          using prefix_replace_py [OF old assms(2)] nq by blast
        with replace_py_skip [OF old np, of new]
        have "\<not> prefix x (c # replace_py old new cs)" by simp
        from count_py_skip [OF x this] count_py_skip [OF x nq] ih Cons
          replace_py_skip [OF old np, of new]
        show ?thesis by simp
      qed
    qed
  qed
qed

lemma count_py_replace_py_own:
  assumes "overlap_free k v" and "unbordered v"
  shows "count_py v (replace_py k v s) = count_py k s + count_py v s"
proof (induction s rule: length_induct)
  case (1 s)
  from assms(1) have k: "k \<noteq> []" and v: "v \<noteq> []" by (simp_all add: overlap_free_nonempty)
  note vk = overlap_free_sym [OF assms(1)]
  show ?case
  proof (cases "prefix k s")
    case True
    let ?rest = "drop (length k) s"
    from True have s: "s = k @ ?rest" by (auto simp add: prefix_def)
    from k True have "length ?rest < length s" by (rule drop_prefix_shorter)
    with "1.IH" have ih: "count_py v (replace_py k v ?rest) = count_py k ?rest + count_py v ?rest"
      by blast
    from s count_py_through_block [OF vk, of ?rest]
    have "count_py v s = count_py v ?rest" by simp
    moreover from count_py_match [OF k True] have "count_py k s = Suc (count_py k ?rest)" .
    moreover from replace_py_match [OF k True]
    have "count_py v (replace_py k v s) = Suc (count_py v (replace_py k v ?rest))"
      by (simp add: count_py_self_append [OF v])
    ultimately show ?thesis using ih by simp
  next
    case False
    show ?thesis
    proof (cases "prefix v s")
      case True
      let ?rest = "drop (length v) s"
      from True have s: "s = v @ ?rest" by (auto simp add: prefix_def)
      from v True have "length ?rest < length s" by (rule drop_prefix_shorter)
      with "1.IH" have ih: "count_py v (replace_py k v ?rest) = count_py k ?rest + count_py v ?rest"
        by blast
      from s replace_py_through_block [OF assms(1), of v ?rest]
      have "replace_py k v s = v @ replace_py k v ?rest" by simp
      then have "count_py v (replace_py k v s) = Suc (count_py v (replace_py k v ?rest))"
        by (simp add: count_py_self_append [OF v])
      moreover from count_py_match [OF v True] have "count_py v s = Suc (count_py v ?rest)" .
      moreover from s count_py_through_block [OF assms(1), of ?rest]
      have "count_py k s = count_py k ?rest" by simp
      ultimately show ?thesis using ih by simp
    next
      case nv: False
      show ?thesis
      proof (cases s)
        case Nil
        with k v show ?thesis by (simp add: replace_py_empty count_py_empty)
      next
        case (Cons c cs)
        with False nv have np: "\<not> prefix k (c # cs)" and nq: "\<not> prefix v (c # cs)"
          by simp_all
        from Cons have "length cs < length s" by simp
        with "1.IH" have ih: "count_py v (replace_py k v cs) = count_py k cs + count_py v cs"
          by blast
        have "\<not> prefix v (c # replace_py k v cs)"
        proof
          assume pv: "prefix v (c # replace_py k v cs)"
          with v obtain v' where v': "v = c # v'" and tail: "prefix v' (replace_py k v cs)"
            by (cases v) auto
          from prefix_replace_py_cases [OF k tail] show False
          proof
            assume "prefix v' cs"
            with v' nq show False by simp
          next
            assume "\<exists>p1 p2. v' = p1 @ p2 \<and> p2 \<noteq> [] \<and> prefix p1 cs
                \<and> (prefix p2 v \<or> prefix v p2)"
            then obtain p1 p2 where split: "v' = p1 @ p2" and p2: "p2 \<noteq> []"
              and border: "prefix p2 v \<or> prefix v p2" by blast
            from split v' have whole: "v = (c # p1) @ p2" by simp
            then have suf: "suffix p2 v" by (simp add: suffix_def)
            from whole have len: "length p2 < length v" by simp
            from border show False
            proof
              assume "prefix p2 v"
              moreover from len have "p2 \<noteq> v" by auto
              ultimately show False using unbordered_no_border [OF assms(2) p2] suf by blast
            next
              assume "prefix v p2"
              then have "length v \<le> length p2" by (rule prefix_length_le)
              with len show False by simp
            qed
          qed
        qed
        from count_py_skip [OF v this] count_py_skip [OF v nq] count_py_skip [OF k np] ih Cons
          replace_py_skip [OF k np, of v]
        show ?thesis by simp
      qed
    qed
  qed
qed

subsection \<open>The whole table\<close>

lemma apply_replacements_append:
  "apply_replacements (xs @ ys) c = apply_replacements ys (apply_replacements xs c)"
  by (induction xs arbitrary: c) auto

lemma apply_replacements_keeps_absent:
  "list_all (\<lambda>entry. fst entry \<noteq> [] \<and> overlap_free k (snd entry)) reps \<Longrightarrow>
   \<not> sublist k c \<Longrightarrow> \<not> sublist k (apply_replacements reps c)"
proof (induction reps arbitrary: c)
  case Nil
  then show ?case by simp
next
  case (Cons entry reps)
  obtain old new where entry: "entry = (old, new)" by (cases entry)
  with Cons.prems have old: "old \<noteq> []" and free: "overlap_free k new"
    and rest: "list_all (\<lambda>entry. fst entry \<noteq> [] \<and> overlap_free k (snd entry)) reps"
    by simp_all
  from sublist_replace_py [OF old free] Cons.prems(2)
  have "\<not> sublist k (replace_py old new c)" by blast
  from Cons.IH [OF rest this] entry show ?case by simp
qed

lemma apply_replacements_removes_key:
  "list_all (\<lambda>entry. fst entry \<noteq> [] \<and> overlap_free k (snd entry)) reps \<Longrightarrow>
   k \<in> set (map fst reps) \<Longrightarrow> \<not> sublist k (apply_replacements reps c)"
proof (induction reps arbitrary: c)
  case Nil
  then show ?case by simp
next
  case (Cons entry reps)
  obtain old new where entry: "entry = (old, new)" by (cases entry)
  with Cons.prems have free: "overlap_free k new"
    and rest: "list_all (\<lambda>entry. fst entry \<noteq> [] \<and> overlap_free k (snd entry)) reps"
    by simp_all
  show ?case
  proof (cases "k = old")
    case True
    with free have "\<not> sublist k (replace_py old new c)"
      by (simp add: old_absent_after_replace_py)
    from apply_replacements_keeps_absent [OF rest this] entry show ?thesis by simp
  next
    case False
    with Cons.prems(2) entry have "k \<in> set (map fst reps)" by simp
    from Cons.IH [OF rest this] entry show ?thesis by simp
  qed
qed

lemma apply_replacements_keeps_count:
  "list_all (\<lambda>entry. overlap_free x (fst entry) \<and> overlap_free x (snd entry)) reps \<Longrightarrow>
   count_py x (apply_replacements reps c) = count_py x c"
proof (induction reps arbitrary: c)
  case Nil
  then show ?case by simp
next
  case (Cons entry reps)
  obtain old new where entry: "entry = (old, new)" by (cases entry)
  with Cons.prems have free: "overlap_free x old" "overlap_free x new"
    and rest: "list_all (\<lambda>entry. overlap_free x (fst entry) \<and> overlap_free x (snd entry)) reps"
    by simp_all
  from Cons.IH [OF rest, of "replace_py old new c"] count_py_replace_py_other [OF free, of c]
    entry
  show ?case by simp
qed

lemma apply_replacements_count:
  assumes "distinct (map fst reps)" and "(k, v) \<in> set reps"
    and "overlap_free k v" and "unbordered v"
    and "list_all (independent k v) reps"
  shows "count_py v (apply_replacements reps c) = count_py k c + count_py v c"
proof -
  from split_list [OF assms(2)] obtain pre post where reps: "reps = pre @ (k, v) # post"
    by blast
  with assms(1) have "k \<notin> fst ` set pre" and "k \<notin> fst ` set post" by auto
  with assms(5) reps have
    pre: "list_all (\<lambda>entry. overlap_free k (fst entry) \<and> overlap_free k (snd entry)) pre"
      "list_all (\<lambda>entry. overlap_free v (fst entry) \<and> overlap_free v (snd entry)) pre"
    and post: "list_all (\<lambda>entry. overlap_free v (fst entry) \<and> overlap_free v (snd entry)) post"
    by (auto simp add: list_all_iff independent_def)
  let ?c1 = "apply_replacements pre c"
  from apply_replacements_keeps_count [OF pre(1)] apply_replacements_keeps_count [OF pre(2)]
  have c1: "count_py k ?c1 = count_py k c" "count_py v ?c1 = count_py v c" by simp_all
  from reps have "apply_replacements reps c = apply_replacements post (replace_py k v ?c1)"
    by (simp add: apply_replacements_append)
  with apply_replacements_keeps_count [OF post, of "replace_py k v ?c1"]
  have "count_py v (apply_replacements reps c) = count_py v (replace_py k v ?c1)" by simp
  with count_py_replace_py_own [OF assms(3,4), of ?c1] c1 show ?thesis by simp
qed

subsection \<open>The target files after the substitution step\<close>

lemma replacements_keys:
  "map fst (replacements p u)
     = [''myplugin'', ''MyPlugin'', ''your-username'', ''your-plugin-name'', ''YourPluginName'']"
  by (simp add: replacements_def)

lemma replacements_keys_nonempty: "list_all (\<lambda>entry. fst entry \<noteq> []) (replacements p u)"
  by (simp add: replacements_def)

lemma replacements_keys_distinct: "distinct (map fst (replacements p u))"
  by (simp add: replacements_keys)

text \<open>
  Claim C2, amended. Let the plugin name be ASCII text, let a target exist as an ordinary
  text file, and let \<open>k\<close> be a placeholder of the replacement table with replacement
  \<open>v\<close>. If no replacement of the table overlaps \<open>k\<close>, then after the
  content-substitution step the file's text is the original text with the table applied in
  order, and it has zero occurrences of \<open>k\<close>. If moreover \<open>v\<close> has no border and
  every other entry of the table is independent of \<open>k\<close> and \<open>v\<close>, then the
  occurrences of \<open>v\<close> in the file's text after the step are as many as the occurrences
  of \<open>k\<close> and of \<open>v\<close> in the original text together.
\<close>

theorem substitution_removes_placeholder:
  assumes "substitution_step p u w = Inr w'"
    and "t \<in> set (files_to_update (to_snake_case p))"
    and "path_exists (fs w) t = Inr True"
    and "fs w t = Some (File c)"
    and "(k, v) \<in> set (replacements p u)"
    and "list_all (\<lambda>entry. overlap_free k (snd entry)) (replacements p u)"
    and "list_all is_ascii p"
  shows "fs w' t = Some (File (apply_replacements (replacements p u) c))
   \<and> count_py k (apply_replacements (replacements p u) c) = 0
   \<and> (unbordered v \<and> list_all (independent k v) (replacements p u) \<longrightarrow>
        count_py v (apply_replacements (replacements p u) c) = count_py k c + count_py v c)"
proof (intro conjI impI)
  from assms(1) show "fs w' t = Some (File (apply_replacements (replacements p u) c))"
    unfolding substitution_step_def
    using distinct_files_to_update assms(2,3,4) by (rule update_files_content)
  from assms(5) have key: "k \<in> set (map fst (replacements p u))" by force
  from assms(5,6) have kv: "overlap_free k v" by (auto simp add: list_all_iff)
  then have k: "k \<noteq> []" by (simp add: overlap_free_nonempty)
  from assms(6) replacements_keys_nonempty [of p u]
  have "list_all (\<lambda>entry. fst entry \<noteq> [] \<and> overlap_free k (snd entry)) (replacements p u)"
    by (simp add: list_all_iff)
  from apply_replacements_removes_key [OF this key]
  have "\<not> sublist k (apply_replacements (replacements p u) c)" .
  with k show "count_py k (apply_replacements (replacements p u) c) = 0"
    by (simp add: count_py_zero_iff)
  assume "unbordered v \<and> list_all (independent k v) (replacements p u)"
  then have "unbordered v" and "list_all (independent k v) (replacements p u)" by simp_all
  with replacements_keys_distinct assms(5) kv
  show "count_py v (apply_replacements (replacements p u) c) = count_py k c + count_py v c"
    by (rule apply_replacements_count)
qed

lemma readme_substitution:
  "substitution_step ''my-plugin'' ''alice''
     (world_of [(''README.md'', File ''# myplugin by your-username'')])
   = Inr \<lparr>fs = (fs_of [(''README.md'', File ''# myplugin by your-username'')])
                  (''README.md'' := Some (File ''# my_plugin by alice'')),
           out = [Updated ''README.md''], procs = []\<rparr>"
  by (simp add: substitution_step_def replacements_def files_to_update_def snake_example
      camel_example world_of_def echo_def path_exists_def read_text_def write_text_def
      fs_of_def)

lemma readme_table:
  "replacements ''my-plugin'' ''alice''
     = [(''myplugin'', ''my_plugin''), (''MyPlugin'', ''MyPlugin''),
        (''your-username'', ''alice''), (''your-plugin-name'', ''my-plugin''),
        (''YourPluginName'', ''MyPlugin'')]"
  by (simp add: replacements_def snake_example camel_example)

lemma readme_overlap_free:
  "list_all (\<lambda>entry. overlap_free ''myplugin'' (snd entry))
     [(''myplugin'', ''my_plugin''), (''MyPlugin'', ''MyPlugin''),
      (''your-username'', ''alice''), (''your-plugin-name'', ''my-plugin''),
      (''YourPluginName'', ''MyPlugin'')]"
  by code_simp

lemma readme_independent:
  "unbordered ''my_plugin''
   \<and> list_all (independent ''myplugin'' ''my_plugin'')
     [(''myplugin'', ''my_plugin''), (''MyPlugin'', ''MyPlugin''),
      (''your-username'', ''alice''), (''your-plugin-name'', ''my-plugin''),
      (''YourPluginName'', ''MyPlugin'')]"
  by code_simp

lemma readme_result:
  "apply_replacements
     [(''myplugin'', ''my_plugin''), (''MyPlugin'', ''MyPlugin''),
      (''your-username'', ''alice''), (''your-plugin-name'', ''my-plugin''),
      (''YourPluginName'', ''MyPlugin'')] ''# myplugin by your-username''
   = ''# my_plugin by alice''"
  by simp

theorem substitution_removes_placeholder_witness:
  "fs \<lparr>fs = (fs_of [(''README.md'', File ''# myplugin by your-username'')])
                  (''README.md'' := Some (File ''# my_plugin by alice'')),
           out = [Updated ''README.md''], procs = []\<rparr> ''README.md''
     = Some (File ''# my_plugin by alice'')
   \<and> count_py ''myplugin'' ''# my_plugin by alice'' = 0
   \<and> count_py ''my_plugin'' ''# my_plugin by alice''
       = count_py ''myplugin'' ''# myplugin by your-username''
         + count_py ''my_plugin'' ''# myplugin by your-username''"
proof -
  have t: "''README.md'' \<in> set (files_to_update (to_snake_case ''my-plugin''))"
    by (simp add: files_to_update_def)
  have e: "path_exists (fs (world_of [(''README.md'', File ''# myplugin by your-username'')]))
      ''README.md'' = Inr True"
    by (simp add: path_exists_readme)
  have c: "fs (world_of [(''README.md'', File ''# myplugin by your-username'')]) ''README.md''
      = Some (File ''# myplugin by your-username'')"
    by (simp add: fs_of_def)
  have kv: "(''myplugin'', ''my_plugin'') \<in> set (replacements ''my-plugin'' ''alice'')"
    by (simp add: readme_table)
  have free: "list_all (\<lambda>entry. overlap_free ''myplugin'' (snd entry))
      (replacements ''my-plugin'' ''alice'')"
    using readme_overlap_free by (simp only: readme_table)
  have ind: "unbordered ''my_plugin''
      \<and> list_all (independent ''myplugin'' ''my_plugin'') (replacements ''my-plugin'' ''alice'')"
    using readme_independent by (simp only: readme_table)
  have a: "list_all is_ascii ''my-plugin''"
    by (simp add: is_ascii_def)
  from substitution_removes_placeholder [OF readme_substitution t e c kv free a] ind
  show ?thesis by (simp only: readme_table readme_result)
qed

lemma snake_example_nvim: "to_snake_case ''myplugin-nvim'' = ''myplugin_nvim''"
  by code_simp

lemma camel_example_nvim: "to_camel_case ''myplugin-nvim'' = ''MypluginNvim''"
  by code_simp

text \<open>
  Claim C2 as stated fails. With the plugin name \<^verbatim>\<open>myplugin-nvim\<close> the
  replacement of \<^verbatim>\<open>myplugin\<close> is \<^verbatim>\<open>myplugin_nvim\<close>, which contains the
  placeholder. The text \<^verbatim>\<open>myplugin myplugin_nvim\<close> becomes
  \<^verbatim>\<open>myplugin_nvim myplugin_nvim_nvim\<close>: the placeholder still occurs twice, and
  the replacement occurs twice, not the three times that two placeholders and one
  occurrence already present would give.
\<close>

theorem placeholder_reappears_counterexample:
  "to_snake_case ''myplugin-nvim'' = ''myplugin_nvim''
   \<and> file_after (substitution_step ''myplugin-nvim'' ''alice''
       (world_of [(''lazy.lua'', File ''myplugin myplugin_nvim'')])) ''lazy.lua''
     = Inr (Some (File ''myplugin_nvim myplugin_nvim_nvim''))
   \<and> count_py ''myplugin'' ''myplugin myplugin_nvim'' = 2
   \<and> count_py ''myplugin'' ''myplugin_nvim myplugin_nvim_nvim'' = 2
   \<and> count_py ''myplugin_nvim'' ''myplugin myplugin_nvim'' = 1
   \<and> count_py ''myplugin_nvim'' ''myplugin_nvim myplugin_nvim_nvim'' = 2"
  by (simp add: substitution_step_def replacements_def files_to_update_def snake_example_nvim
      camel_example_nvim world_of_def echo_def path_exists_def read_text_def write_text_def
      fs_of_def file_after_def)

end
